theory Spec2Isabelle
  imports Complex_Main "HOL-Library.Finite_Map" "HOL-Library.List_Lexorder" "HOL-Library.Char_ord"
    "HOL-Library.Multiset"
begin

section \<open>JSON trees and the deep merge of the inventory engine\<close>

text \<open>
  A decoded JSON value. Python's \<open>dict\<close> compares by content, whatever the insertion
  order, so a JSON object is a finite map (\<open>fmap\<close>): HOL equality on it is Python's
  \<open>==\<close> on dicts. The payload of a float is never inspected by the code below; it is
  carried as a real number.
\<close>

datatype json =
    JNull
  | JBool bool
  | JInt int
  | JFloat real
  | JStr string
  | JList "json list"
  | JDict "(string, json) fmap"

type_synonym JsonType = "(string, json) fmap"

datatype error = MinerException string | KeyError string | IndexError | ZeroDivisionError

text \<open>The Python classes of decoded JSON values; \<open>bool\<close> is a subclass of \<open>int\<close>.\<close>

datatype py_type = T_NoneType | T_bool | T_int | T_float | T_str | T_list | T_dict

fun type_of :: "json \<Rightarrow> py_type" where
  "type_of JNull = T_NoneType"
| "type_of (JBool _) = T_bool"
| "type_of (JInt _) = T_int"
| "type_of (JFloat _) = T_float"
| "type_of (JStr _) = T_str"
| "type_of (JList _) = T_list"
| "type_of (JDict _) = T_dict"

definition isinstance :: "json \<Rightarrow> py_type \<Rightarrow> bool" where
  "isinstance v T = (type_of v = T \<or> (type_of v = T_bool \<and> T = T_int))"

definition dict_size :: "JsonType \<Rightarrow> nat" where
  "dict_size m = size_fmap (\<lambda>_. 0) size m"

lemma fmlookup_dict_size:
  assumes "fmlookup m k = Some (JDict d)"
  shows "dict_size d < dict_size m"
proof -
  have mem: "(k, JDict d) \<in> fset (fset_of_fmap m)"
    using assms by simp
  have "Suc (size (JDict d)) \<le> (\<Sum>x \<in> fset (fset_of_fmap m). Suc (case x of (a, b) \<Rightarrow> size b))"
    using member_le_sum[of "(k, JDict d)" "fset (fset_of_fmap m)" "\<lambda>x. Suc (case x of (a, b) \<Rightarrow> size b)"] mem
    by simp
  then show ?thesis by (simp add: dict_size_def)
qed

text \<open>
  \<open>DropsManager._merge_data\<close> (drops.py) and its copy \<open>Twitch._merge_data\<close> (client.py):
  \<^verbatim>\<open>
  merged = {}
  for key in set(chain(primary_data.keys(), secondary_data.keys())):
      in_primary = key in primary_data
      if in_primary and key in secondary_data:
          vp = primary_data[key]; vs = secondary_data[key]
          if not isinstance(vp, type(vs)) or not isinstance(vs, type(vp)):
              raise MinerException("Inconsistent merge data")
          if isinstance(vp, dict): merged[key] = self._merge_data(vp, vs)
          else: merged[key] = vp
      elif in_primary: merged[key] = primary_data[key]
      else: merged[key] = secondary_data[key]
  return merged
  \<close>
  Python iterates a set in an order it does not specify. The order is the parameter
  \<open>iter\<close>, which lists the elements of a finite set of keys; \<open>merge_keys\<close> is the
  loop body run over the keys that are left, with the dictionary built so far.
\<close>

function merge_data :: "(string fset \<Rightarrow> string list) \<Rightarrow> JsonType \<Rightarrow> JsonType \<Rightarrow> error + JsonType"
  and merge_keys :: "(string fset \<Rightarrow> string list) \<Rightarrow> JsonType \<Rightarrow> JsonType \<Rightarrow> string list
        \<Rightarrow> JsonType \<Rightarrow> error + JsonType"
where
  "merge_data iter primary_data secondary_data =
     merge_keys iter primary_data secondary_data
       (iter (fmdom primary_data |\<union>| fmdom secondary_data)) fmempty"
| "merge_keys iter primary_data secondary_data [] merged = Inr merged"
| "merge_keys iter primary_data secondary_data (key # keys) merged =
     (case fmlookup primary_data key of
        Some vp \<Rightarrow>
          (case fmlookup secondary_data key of
             Some vs \<Rightarrow>
               if \<not> isinstance vp (type_of vs) \<or> \<not> isinstance vs (type_of vp)
               then Inl (MinerException ''Inconsistent merge data'')
               else (case vp of
                  JDict dp \<Rightarrow>
                    (case vs of
                       JDict ds \<Rightarrow>
                        (case merge_data iter dp ds of
                           Inl e \<Rightarrow> Inl e
                         | Inr m \<Rightarrow> merge_keys iter primary_data secondary_data keys
                                      (fmupd key (JDict m) merged))
                     | _ \<Rightarrow> merge_keys iter primary_data secondary_data keys (fmupd key vp merged))
                | _ \<Rightarrow> merge_keys iter primary_data secondary_data keys (fmupd key vp merged))
           | None \<Rightarrow> merge_keys iter primary_data secondary_data keys (fmupd key vp merged))
      | None \<Rightarrow>
          (case fmlookup secondary_data key of
             Some vs \<Rightarrow> merge_keys iter primary_data secondary_data keys (fmupd key vs merged)
           | None \<Rightarrow> Inl (KeyError key)))"
  by pat_completeness auto
termination
  by (relation "inv_image (less_than <*lex*> less_than)
        (\<lambda>x. case x of
           Inl (iter, p, s) \<Rightarrow> (dict_size p, Suc (length (iter (fmdom p |\<union>| fmdom s))))
         | Inr (iter, p, s, ks, m) \<Rightarrow> (dict_size p, length ks))")
     (auto simp: fmlookup_dict_size)

declare merge_data.simps [simp del]
declare merge_keys.simps(2) [simp del]

text \<open>What one pass of the loop body stores under \<open>key\<close>, or the exception it raises.\<close>

definition merge_at :: "(string fset \<Rightarrow> string list) \<Rightarrow> JsonType \<Rightarrow> JsonType \<Rightarrow> string \<Rightarrow> error + json" where
  "merge_at iter p s key =
     (case fmlookup p key of
        Some vp \<Rightarrow>
          (case fmlookup s key of
             Some vs \<Rightarrow>
               if type_of vp \<noteq> type_of vs then Inl (MinerException ''Inconsistent merge data'')
               else (case vp of
                  JDict dp \<Rightarrow>
                    (case vs of
                       JDict ds \<Rightarrow>
                        (case merge_data iter dp ds of Inl e \<Rightarrow> Inl e | Inr m \<Rightarrow> Inr (JDict m))
                     | _ \<Rightarrow> Inr vp)
                | _ \<Rightarrow> Inr vp)
           | None \<Rightarrow> Inr vp)
      | None \<Rightarrow> (case fmlookup s key of Some vs \<Rightarrow> Inr vs | None \<Rightarrow> Inl (KeyError key)))"

definition inconsistent :: error where
  "inconsistent = MinerException ''Inconsistent merge data''"

text \<open>An iteration order lists exactly the elements of the set it is given.\<close>

definition iter_ok :: "(string fset \<Rightarrow> string list) \<Rightarrow> bool" where
  "iter_ok iter \<longleftrightarrow> (\<forall>X. set (iter X) = fset X)"

lemma isinstance_both:
  "(\<not> isinstance vp (type_of vs) \<or> \<not> isinstance vs (type_of vp)) \<longleftrightarrow> type_of vp \<noteq> type_of vs"
  by (auto simp: isinstance_def)

lemma merge_keys_Cons:
  "merge_keys iter p s (key # keys) merged =
     (case merge_at iter p s key of
        Inl e \<Rightarrow> Inl e
      | Inr v \<Rightarrow> merge_keys iter p s keys (fmupd key v merged))"
  unfolding merge_keys.simps(2) [of iter p s key keys merged] merge_at_def isinstance_both
  by (auto split: option.splits json.splits sum.splits)

subsection \<open>The loop over the keys\<close>

lemma merge_keys_Inr_lookup:
  assumes "\<forall>k \<in> set ks. merge_at iter p s k = Inr (f k)"
  shows "\<exists>M. merge_keys iter p s ks acc = Inr M \<and>
           (\<forall>k. fmlookup M k = (if k \<in> set ks then Some (f k) else fmlookup acc k))"
  using assms
proof (induction ks arbitrary: acc)
  case Nil
  then show ?case by simp
next
  case (Cons a ks)
  from Cons.prems have a: "merge_at iter p s a = Inr (f a)" by simp
  from Cons.prems have rest: "\<forall>k \<in> set ks. merge_at iter p s k = Inr (f k)" by simp
  from Cons.IH[OF rest, of "fmupd a (f a) acc"] obtain M where
    M: "merge_keys iter p s ks (fmupd a (f a) acc) = Inr M"
       "\<forall>k. fmlookup M k = (if k \<in> set ks then Some (f k) else fmlookup (fmupd a (f a) acc) k)"
    by blast
  have "merge_keys iter p s (a # ks) acc = Inr M"
    using M(1) a by (simp add: merge_keys_Cons)
  moreover have "\<forall>k. fmlookup M k = (if k \<in> set (a # ks) then Some (f k) else fmlookup acc k)"
    using M(2) by auto
  ultimately show ?case by blast
qed

lemma merge_keys_Inl:
  assumes "k \<in> set ks" and "merge_at iter p s k = Inl e"
    and "\<forall>k' \<in> set ks. \<forall>e'. merge_at iter p s k' = Inl e' \<longrightarrow> e' = e"
  shows "merge_keys iter p s ks acc = Inl e"
  using assms
proof (induction ks arbitrary: acc)
  case Nil
  then show ?case by simp
next
  case (Cons a ks)
  show ?case
  proof (cases "merge_at iter p s a")
    case (Inl e')
    from Cons.prems(3) Inl have "e' = e" by (meson list.set_intros(1))
    with Inl show ?thesis by (simp add: merge_keys_Cons)
  next
    case (Inr v)
    with Cons.prems(1,2) have k: "k \<in> set ks" by auto
    from Cons.prems(3) have all: "\<forall>k' \<in> set ks. \<forall>e'. merge_at iter p s k' = Inl e' \<longrightarrow> e' = e"
      by (meson list.set_intros(2))
    from Cons.IH[OF k Cons.prems(2) all] have "merge_keys iter p s ks (fmupd a v acc) = Inl e" .
    with Inr show ?thesis by (simp add: merge_keys_Cons)
  qed
qed

lemma merge_keys_Inr_D:
  assumes "merge_keys iter p s ks acc = Inr M"
  shows "(\<forall>k \<in> set ks. \<exists>v. merge_at iter p s k = Inr v \<and> fmlookup M k = Some v) \<and>
         (\<forall>k. k \<notin> set ks \<longrightarrow> fmlookup M k = fmlookup acc k)"
  using assms
proof (induction ks arbitrary: acc)
  case Nil
  then show ?case by simp
next
  case (Cons a ks)
  from Cons.prems obtain v where v: "merge_at iter p s a = Inr v"
    and rest: "merge_keys iter p s ks (fmupd a v acc) = Inr M"
    by (auto simp: merge_keys_Cons split: sum.splits)
  from Cons.IH[OF rest] have
    ih1: "\<forall>k \<in> set ks. \<exists>v. merge_at iter p s k = Inr v \<and> fmlookup M k = Some v" and
    ih2: "\<forall>k. k \<notin> set ks \<longrightarrow> fmlookup M k = fmlookup (fmupd a v acc) k"
    by blast+
  have "\<exists>v. merge_at iter p s a = Inr v \<and> fmlookup M a = Some v"
  proof (cases "a \<in> set ks")
    case True
    with ih1 show ?thesis by blast
  next
    case False
    with ih2 have "fmlookup M a = Some v" by simp
    with v show ?thesis by simp
  qed
  with ih1 ih2 show ?case by auto
qed

lemma merge_keys_Inl_D:
  assumes "merge_keys iter p s ks acc = Inl e"
  shows "\<exists>k \<in> set ks. merge_at iter p s k = Inl e"
  using assms
proof (induction ks arbitrary: acc)
  case Nil
  then show ?case by simp
next
  case (Cons a ks)
  show ?case
  proof (cases "merge_at iter p s a")
    case (Inl e')
    with Cons.prems have "e' = e" by (simp add: merge_keys_Cons)
    with Inl show ?thesis by simp
  next
    case (Inr v)
    with Cons.prems have "merge_keys iter p s ks (fmupd a v acc) = Inl e"
      by (simp add: merge_keys_Cons)
    from Cons.IH[OF this] show ?thesis by auto
  qed
qed

lemma merge_data_Inl:
  assumes ok: "iter_ok iter"
  shows "merge_data iter p s = Inl e \<Longrightarrow> e = inconsistent"
proof (induction "dict_size p" arbitrary: p s e rule: less_induct)
  case less
  from less.prems have "merge_keys iter p s (iter (fmdom p |\<union>| fmdom s)) fmempty = Inl e"
    by (simp add: merge_data.simps)
  from merge_keys_Inl_D[OF this] obtain k where
    k: "k \<in> set (iter (fmdom p |\<union>| fmdom s))" and at: "merge_at iter p s k = Inl e"
    by blast
  from k ok have dom: "k |\<in>| fmdom p \<or> k |\<in>| fmdom s"
    by (auto simp: iter_ok_def)
  show ?case
  proof (cases "fmlookup p k")
    case None
    with dom obtain vs where "fmlookup s k = Some vs"
      by (auto simp: fmdom_notI dest: fmdom_notD)
    with None at show ?thesis by (simp add: merge_at_def)
  next
    case (Some vp)
    show ?thesis
    proof (cases "fmlookup s k")
      case None
      with Some at show ?thesis by (simp add: merge_at_def)
    next
      case (Some vs)
      note s = Some
      show ?thesis
      proof (cases "type_of vp \<noteq> type_of vs")
        case True
        with \<open>fmlookup p k = Some vp\<close> s at show ?thesis
          by (simp add: merge_at_def inconsistent_def)
      next
        case False
        with \<open>fmlookup p k = Some vp\<close> s at obtain dp ds where
          d: "vp = JDict dp" "vs = JDict ds" "merge_data iter dp ds = Inl e"
          by (auto simp: merge_at_def split: json.splits sum.splits)
        from \<open>fmlookup p k = Some vp\<close> d(1) have "dict_size dp < dict_size p"
          by (simp add: fmlookup_dict_size)
        from less.hyps[OF this d(3)] show ?thesis .
      qed
    qed
  qed
qed

subsection \<open>Laws of the merge\<close>

lemma merge_data_lookup:
  assumes ok: "iter_ok iter"
    and at: "\<forall>k. k |\<in>| fmdom p |\<union>| fmdom s \<longrightarrow> merge_at iter p s k = Inr (f k)"
    and R: "\<forall>k. fmlookup R k = (if k |\<in>| fmdom p |\<union>| fmdom s then Some (f k) else None)"
  shows "merge_data iter p s = Inr R"
proof -
  let ?ks = "iter (fmdom p |\<union>| fmdom s)"
  have set_ks: "set ?ks = fset (fmdom p |\<union>| fmdom s)"
    using ok by (simp add: iter_ok_def)
  have "\<forall>k \<in> set ?ks. merge_at iter p s k = Inr (f k)"
    using at set_ks by auto
  from merge_keys_Inr_lookup[OF this, of fmempty] obtain M where
    M: "merge_keys iter p s ?ks fmempty = Inr M"
       "\<forall>k. fmlookup M k = (if k \<in> set ?ks then Some (f k) else fmlookup fmempty k)"
    by blast
  have "fmlookup M k = fmlookup R k" for k
    using M(2) R set_ks by simp
  then have "M = R" by (rule fmap_ext)
  with M(1) show ?thesis by (simp add: merge_data.simps)
qed

lemma merge_data_same:
  assumes ok: "iter_ok iter"
  shows "merge_data iter A A = Inr A"
proof (induction "dict_size A" arbitrary: A rule: less_induct)
  case less
  have at: "merge_at iter A A k = Inr (the (fmlookup A k))" if "k |\<in>| fmdom A |\<union>| fmdom A" for k
  proof -
    from that obtain v where v: "fmlookup A k = Some v"
      by (auto dest: fmdom_notD)
    show ?thesis
    proof (cases v)
      case (JDict d)
      with v have "dict_size d < dict_size A" by (simp add: fmlookup_dict_size)
      then have "merge_data iter d d = Inr d" by (rule less.hyps)
      with v JDict show ?thesis by (simp add: merge_at_def)
    qed (use v in \<open>simp_all add: merge_at_def\<close>)
  qed
  show ?case
  proof (rule merge_data_lookup[OF ok, where f = "\<lambda>k. the (fmlookup A k)"])
    show "\<forall>k. k |\<in>| fmdom A |\<union>| fmdom A \<longrightarrow> merge_at iter A A k = Inr (the (fmlookup A k))"
      using at by blast
    show "\<forall>k. fmlookup A k = (if k |\<in>| fmdom A |\<union>| fmdom A then Some (the (fmlookup A k)) else None)"
      by (auto dest: fmdom_notD simp: fmdom_notI)
  qed
qed

lemma merge_data_disjoint:
  assumes ok: "iter_ok iter" and disj: "fmdom A |\<inter>| fmdom B = {||}"
  shows "merge_data iter A B = Inr (A ++\<^sub>f B)"
proof (rule merge_data_lookup[OF ok, where f = "\<lambda>k. the (fmlookup (A ++\<^sub>f B) k)"])
  show "\<forall>k. k |\<in>| fmdom A |\<union>| fmdom B \<longrightarrow> merge_at iter A B k = Inr (the (fmlookup (A ++\<^sub>f B) k))"
  proof (intro allI impI)
    fix k assume k: "k |\<in>| fmdom A |\<union>| fmdom B"
    show "merge_at iter A B k = Inr (the (fmlookup (A ++\<^sub>f B) k))"
    proof (cases "k |\<in>| fmdom A")
      case True
      with disj have nb: "k |\<notin>| fmdom B" by auto
      from True obtain v where v: "fmlookup A k = Some v" by (auto dest: fmdom_notD)
      from nb have "fmlookup B k = None" by (rule fmdom_notD)
      with v nb show ?thesis by (simp add: merge_at_def)
    next
      case False
      with k have "k |\<in>| fmdom B" by auto
      then obtain v where v: "fmlookup B k = Some v" by (auto dest: fmdom_notD)
      from False have "fmlookup A k = None" by (rule fmdom_notD)
      with v \<open>k |\<in>| fmdom B\<close> show ?thesis by (simp add: merge_at_def)
    qed
  qed
  show "\<forall>k. fmlookup (A ++\<^sub>f B) k =
          (if k |\<in>| fmdom A |\<union>| fmdom B then Some (the (fmlookup (A ++\<^sub>f B) k)) else None)"
    by (auto dest: fmdom_notD simp: fmdom_notI)
qed

lemma merge_at_Inl:
  assumes ok: "iter_ok iter" and dom: "k |\<in>| fmdom p |\<union>| fmdom s"
    and at: "merge_at iter p s k = Inl e"
  shows "e = inconsistent"
proof -
  have "e = inconsistent \<or> (\<exists>dp ds. merge_data iter dp ds = Inl e)"
    using at dom
    by (auto simp: merge_at_def inconsistent_def fmdom_notI split: option.splits if_splits json.splits sum.splits)
  then show ?thesis using merge_data_Inl[OF ok] by blast
qed

lemma merge_data_mismatch:
  assumes ok: "iter_ok iter"
    and "fmlookup A k = Some va" and "fmlookup B k = Some vb" and "type_of va \<noteq> type_of vb"
  shows "merge_data iter A B = Inl inconsistent"
proof -
  let ?ks = "iter (fmdom A |\<union>| fmdom B)"
  have set_ks: "set ?ks = fset (fmdom A |\<union>| fmdom B)"
    using ok by (simp add: iter_ok_def)
  have "k |\<in>| fmdom A" using assms(2) by (simp add: fmdomI)
  then have k: "k \<in> set ?ks" using set_ks by simp
  have at: "merge_at iter A B k = Inl inconsistent"
    using assms(2-4) by (simp add: merge_at_def inconsistent_def)
  have all: "\<forall>k' \<in> set ?ks. \<forall>e'. merge_at iter A B k' = Inl e' \<longrightarrow> e' = inconsistent"
    using merge_at_Inl[OF ok] set_ks by blast
  from merge_keys_Inl[OF k at all] show ?thesis by (simp add: merge_data.simps)
qed

lemma merge_data_Inr_D:
  assumes ok: "iter_ok iter" and "merge_data iter A B = Inr M"
  shows "fmdom M = fmdom A |\<union>| fmdom B"
    and "k |\<in>| fmdom A |\<union>| fmdom B \<Longrightarrow> \<exists>v. merge_at iter A B k = Inr v \<and> fmlookup M k = Some v"
proof -
  let ?ks = "iter (fmdom A |\<union>| fmdom B)"
  have set_ks: "set ?ks = fset (fmdom A |\<union>| fmdom B)"
    using ok by (simp add: iter_ok_def)
  from assms(2) have "merge_keys iter A B ?ks fmempty = Inr M"
    by (simp add: merge_data.simps)
  from merge_keys_Inr_D[OF this] have
    1: "\<forall>k \<in> set ?ks. \<exists>v. merge_at iter A B k = Inr v \<and> fmlookup M k = Some v" and
    2: "\<forall>k. k \<notin> set ?ks \<longrightarrow> fmlookup M k = fmlookup fmempty k"
    by blast+
  show "k |\<in>| fmdom A |\<union>| fmdom B \<Longrightarrow> \<exists>v. merge_at iter A B k = Inr v \<and> fmlookup M k = Some v"
    using 1 set_ks by simp
  have "k' |\<in>| fmdom M \<longleftrightarrow> k' |\<in>| fmdom A |\<union>| fmdom B" for k'
  proof (cases "k' \<in> set ?ks")
    case True
    with 1 obtain v where "fmlookup M k' = Some v" by blast
    then have "k' |\<in>| fmdom M" by (rule fmdomI)
    with True set_ks show ?thesis by simp
  next
    case False
    with 2 have "fmlookup M k' = None" by simp
    then have "k' |\<notin>| fmdom M" by (simp add: fmdom_notI)
    with False set_ks show ?thesis by simp
  qed
  then show "fmdom M = fmdom A |\<union>| fmdom B" by blast
qed

text \<open>
  Claim C1. For JSON trees \<open>A\<close> and \<open>B\<close> and any iteration order of the key set, the
  deep merge satisfies: \<open>merge(A, A) = A\<close>; \<open>merge(A, {}) = A\<close>; when the key sets are
  disjoint, \<open>merge(A, B)\<close> is the union of the entries of both; when some shared key
  holds values of two different types, \<open>MinerException\<close> is raised; and whenever the merge
  returns, its keys are the union of the key sets, a key in both trees whose two values are
  maps holds the recursive merge of the two, any other key of \<open>A\<close> holds \<open>A\<close>'s value, and a
  key of \<open>B\<close> alone holds \<open>B\<close>'s value.
\<close>

theorem merge_data_laws:
  assumes "iter_ok iter"
  shows "merge_data iter A A = Inr A
    \<and> merge_data iter A fmempty = Inr A
    \<and> (fmdom A |\<inter>| fmdom B = {||} \<longrightarrow> merge_data iter A B = Inr (A ++\<^sub>f B))
    \<and> ((\<exists>k va vb. fmlookup A k = Some va \<and> fmlookup B k = Some vb \<and> type_of va \<noteq> type_of vb)
          \<longrightarrow> merge_data iter A B = Inl (MinerException ''Inconsistent merge data''))
    \<and> (\<forall>M. merge_data iter A B = Inr M \<longrightarrow>
          fmdom M = fmdom A |\<union>| fmdom B
        \<and> (\<forall>k da db. fmlookup A k = Some (JDict da) \<and> fmlookup B k = Some (JDict db) \<longrightarrow>
              (\<exists>m. merge_data iter da db = Inr m \<and> fmlookup M k = Some (JDict m)))
        \<and> (\<forall>k va. fmlookup A k = Some va
                \<and> \<not> (\<exists>da db. va = JDict da \<and> fmlookup B k = Some (JDict db)) \<longrightarrow>
              fmlookup M k = Some va)
        \<and> (\<forall>k. fmlookup A k = None \<longrightarrow> fmlookup M k = fmlookup B k))"
proof (intro conjI allI impI)
  show "merge_data iter A A = Inr A"
    using assms by (rule merge_data_same)
  have "fmdom A |\<inter>| fmdom fmempty = {||}" by simp
  from merge_data_disjoint[OF assms this] show "merge_data iter A fmempty = Inr A"
    by simp
  show "merge_data iter A B = Inr (A ++\<^sub>f B)" if "fmdom A |\<inter>| fmdom B = {||}"
    using assms that by (rule merge_data_disjoint)
  show "merge_data iter A B = Inl (MinerException ''Inconsistent merge data'')"
    if "\<exists>k va vb. fmlookup A k = Some va \<and> fmlookup B k = Some vb \<and> type_of va \<noteq> type_of vb"
    using that merge_data_mismatch[OF assms] by (auto simp: inconsistent_def)
next
  fix M assume M: "merge_data iter A B = Inr M"
  show "fmdom M = fmdom A |\<union>| fmdom B"
    using assms M by (rule merge_data_Inr_D(1))
  have at: "\<exists>v. merge_at iter A B k = Inr v \<and> fmlookup M k = Some v"
    if "k |\<in>| fmdom A |\<union>| fmdom B" for k
    using assms M that by (rule merge_data_Inr_D(2))
  { fix k da db
    assume kk: "fmlookup A k = Some (JDict da) \<and> fmlookup B k = Some (JDict db)"
    then have "k |\<in>| fmdom A |\<union>| fmdom B" by (auto simp: fmdomI)
    from at[OF this] kk
    show "\<exists>m. merge_data iter da db = Inr m \<and> fmlookup M k = Some (JDict m)"
      by (auto simp: merge_at_def split: sum.splits) }
  { fix k va
    assume kk: "fmlookup A k = Some va \<and> \<not> (\<exists>da db. va = JDict da \<and> fmlookup B k = Some (JDict db))"
    then have "k |\<in>| fmdom A |\<union>| fmdom B" by (auto simp: fmdomI)
    from at[OF this] kk
    show "fmlookup M k = Some va"
      by (auto simp: merge_at_def split: option.splits if_splits json.splits sum.splits) }
  { fix k
    assume kk: "fmlookup A k = None"
    show "fmlookup M k = fmlookup B k"
    proof (cases "fmlookup B k")
      case None
      with kk have "k |\<notin>| fmdom A |\<union>| fmdom B" by (simp add: fmdom_notI)
      with \<open>fmdom M = fmdom A |\<union>| fmdom B\<close> have "k |\<notin>| fmdom M" by simp
      with None show ?thesis by (simp add: fmdom_notD)
    next
      case (Some vb)
      then have "k |\<in>| fmdom A |\<union>| fmdom B" by (auto simp: fmdomI)
      from at[OF this] kk Some show ?thesis
        by (auto simp: merge_at_def)
    qed }
qed

lemma iter_ok_sorted: "iter_ok sorted_list_of_fset"
  by (simp add: iter_ok_def)

theorem merge_data_laws_witness:
  "iter_ok sorted_list_of_fset
   \<and> merge_data sorted_list_of_fset
        (fmupd ''id'' (JStr ''c1'') (fmupd ''self'' (JDict (fmupd ''linked'' (JBool True) fmempty)) fmempty))
        (fmupd ''id'' (JStr ''c1'') (fmupd ''self'' (JDict (fmupd ''linked'' (JBool True) fmempty)) fmempty))
      = Inr (fmupd ''id'' (JStr ''c1'') (fmupd ''self'' (JDict (fmupd ''linked'' (JBool True) fmempty)) fmempty))
   \<and> fmdom (fmupd ''id'' (JStr ''c1'') fmempty) |\<inter>| fmdom (fmupd ''name'' (JStr ''n'') fmempty) = {||}
   \<and> merge_data sorted_list_of_fset (fmupd ''id'' (JStr ''c1'') fmempty) (fmupd ''name'' (JStr ''n'') fmempty)
      = Inr (fmupd ''id'' (JStr ''c1'') fmempty ++\<^sub>f fmupd ''name'' (JStr ''n'') fmempty)
   \<and> merge_data sorted_list_of_fset (fmupd ''id'' (JStr ''c1'') fmempty) (fmupd ''id'' (JInt 1) fmempty)
      = Inl (MinerException ''Inconsistent merge data'')"
proof -
  note ok = iter_ok_sorted
  have d: "fmdom (fmupd ''id'' (JStr ''c1'') fmempty) |\<inter>| fmdom (fmupd ''name'' (JStr ''n'') fmempty) = {||}"
    by simp
  have m: "\<exists>k va vb. fmlookup (fmupd ''id'' (JStr ''c1'') fmempty) k = Some va
       \<and> fmlookup (fmupd ''id'' (JInt 1) fmempty) k = Some vb \<and> type_of va \<noteq> type_of vb"
    by (rule exI[of _ "''id''"]) simp
  from merge_data_laws[OF ok, of "fmupd ''id'' (JStr ''c1'') (fmupd ''self'' (JDict (fmupd ''linked'' (JBool True) fmempty)) fmempty)" fmempty]
       merge_data_laws[OF ok, of "fmupd ''id'' (JStr ''c1'') fmempty" "fmupd ''name'' (JStr ''n'') fmempty"]
       merge_data_laws[OF ok, of "fmupd ''id'' (JStr ''c1'') fmempty" "fmupd ''id'' (JInt 1) fmempty"]
       ok d m
  show ?thesis by blast
qed

section \<open>The pub/sub connection pool\<close>

text \<open>
  Modelled from the spec: \<open>WebsocketTopic\<close> (constants.py is not among the sources). The
  spec gives a topic its string encoding, makes equality and hashing go by the triple the
  string encodes, and lets the string be parsed back into the topic; so two topics are equal
  exactly when their strings are, and a topic is modelled by its string. The handler it
  carries takes no part in what follows. \<open>WS_TOPICS_LIMIT\<close> and \<open>MAX_WEBSOCKETS\<close> are
  constants of the same missing module; they are the parameters \<open>L\<close> and \<open>M\<close>.
\<close>

type_synonym topic = string

text \<open>
  A connection: its index, \<open>self.topics\<close> (a dict from the topic's string to the topic,
  here the list of its keys in insertion order), the \<open>_topics_changed\<close> event and whether
  its task has been started.
\<close>

record Websocket =
  idx :: nat
  topics :: "topic list"
  topics_changed :: bool
  started :: bool

text \<open>
  The pool: \<open>self.websockets\<close>, the \<open>_running\<close> event, and the connections that
  \<open>remove_topics\<close> has popped and handed to \<open>stop_nowait(remove=True)\<close>.
\<close>

record WebsocketPool =
  websockets :: "Websocket list"
  running :: bool
  stopped :: "Websocket list"

definition new_Websocket :: "nat \<Rightarrow> Websocket" where
  "new_Websocket index = \<lparr>idx = index, topics = [], topics_changed = False, started = False\<rparr>"

definition empty_pool :: WebsocketPool where
  "empty_pool = \<lparr>websockets = [], running = False, stopped = []\<rparr>"

text \<open>\<open>self.topics[str(topic)] = topic\<close>: a key already there keeps its place.\<close>

definition dict_set :: "topic list \<Rightarrow> topic \<Rightarrow> topic list" where
  "dict_set ks k = (if k \<in> set ks then ks else ks @ [k])"

text \<open>
  \<open>Websocket.add_topics\<close>:
  \<^verbatim>\<open>
  changed = False
  while topics_set and len(self.topics) < WS_TOPICS_LIMIT:
      topic = topics_set.pop()
      self.topics[str(topic)] = topic
      changed = True
  if changed: self._topics_changed.set()
  \<close>
  The set is a list without repetitions and \<open>pop\<close> takes its head (Python does not say
  which element a set gives up). The result is the connection and what is left of the set,
  which the caller reads back.
\<close>

fun Websocket_add_topics :: "nat \<Rightarrow> Websocket \<Rightarrow> topic list \<Rightarrow> Websocket \<times> topic list" where
  "Websocket_add_topics L ws [] = (ws, [])"
| "Websocket_add_topics L ws (t # topics_set) =
     (if length (topics ws) < L
      then Websocket_add_topics L
             (ws\<lparr>topics := dict_set (topics ws) t, topics_changed := True\<rparr>) topics_set
      else (ws, t # topics_set))"

text \<open>
  \<open>Websocket.remove_topics\<close>:
  \<^verbatim>\<open>
  existing = topics_set.intersection(self.topics.keys())
  if not existing: return
  topics_set.difference_update(existing)
  for topic in existing: del self.topics[topic]
  self._topics_changed.set()
  \<close>
\<close>

definition Websocket_remove_topics :: "Websocket \<Rightarrow> topic list \<Rightarrow> Websocket \<times> topic list" where
  "Websocket_remove_topics ws topics_set =
     (let existing = filter (\<lambda>t. t \<in> set (topics ws)) topics_set in
      if existing = [] then (ws, topics_set)
      else (ws\<lparr>topics := filter (\<lambda>t. t \<notin> set existing) (topics ws), topics_changed := True\<rparr>,
            filter (\<lambda>t. t \<notin> set existing) topics_set))"

text \<open>
  The loop of \<open>WebsocketPool.add_topics\<close> from index \<open>ws_idx\<close> on:
  \<^verbatim>\<open>
  for ws_idx in range(MAX_WEBSOCKETS):
      if ws_idx < len(self.websockets): ws = self.websockets[ws_idx]
      else:
          ws = Websocket(self, ws_idx)
          if self.running: ws.start_nowait()
          self.websockets.append(ws)
      ws.add_topics(topics_set)
      if not topics_set: return
  raise MinerException("Maximum topics limit has been reached")
  \<close>
  A call returns the exception it raised, if any, together with the pool as it leaves it:
  the connections filled before the exception stay filled.
\<close>

function add_loop :: "nat \<Rightarrow> nat \<Rightarrow> nat \<Rightarrow> WebsocketPool \<Rightarrow> topic list \<Rightarrow> error option \<times> WebsocketPool" where
  "add_loop M L ws_idx pool topics_set =
     (if ws_idx < M then
        (let n = length (websockets pool);
             pos = (if ws_idx < n then ws_idx else n);
             wss = (if ws_idx < n then websockets pool
                    else websockets pool @ [(new_Websocket ws_idx)\<lparr>started := running pool\<rparr>]);
             (ws, rest) = Websocket_add_topics L (wss ! pos) topics_set;
             pool' = pool\<lparr>websockets := wss[pos := ws]\<rparr>
         in if rest = [] then (None, pool') else add_loop M L (Suc ws_idx) pool' rest)
      else (Some (MinerException ''Maximum topics limit has been reached''), pool))"
  by pat_completeness auto
termination
  by (relation "measure (\<lambda>(M, L, ws_idx, pool, topics_set). M - ws_idx)") auto

declare add_loop.simps [simp del]

text \<open>
  \<open>WebsocketPool.add_topics\<close>:
  \<^verbatim>\<open>
  topics_set = set(topics)
  if not topics_set: return
  topics_set.difference_update(*(ws.topics.values() for ws in self.websockets))
  if not topics_set: return
  ... the loop above ...
  \<close>
\<close>

definition add_topics :: "nat \<Rightarrow> nat \<Rightarrow> topic list \<Rightarrow> WebsocketPool \<Rightarrow> error option \<times> WebsocketPool" where
  "add_topics M L new_topics pool =
     (let topics_set = remdups new_topics in
      if topics_set = [] then (None, pool)
      else
        let topics_set = filter (\<lambda>t. \<forall>ws \<in> set (websockets pool). t \<notin> set (topics ws)) topics_set in
        if topics_set = [] then (None, pool)
        else add_loop M L 0 pool topics_set)"

text \<open>\<open>for ws in self.websockets: ws.remove_topics(topics_set)\<close>, the set shrinking on the way.\<close>

fun remove_each :: "Websocket list \<Rightarrow> topic list \<Rightarrow> Websocket list" where
  "remove_each [] topics_set = []"
| "remove_each (ws # wss) topics_set =
     (case Websocket_remove_topics ws topics_set of
        (ws', topics_set') \<Rightarrow> ws' # remove_each wss topics_set')"

text \<open>
  The compaction loop of \<open>WebsocketPool.remove_topics\<close>:
  \<^verbatim>\<open>
  recycled_topics = []
  while True:
      count = sum(len(ws.topics) for ws in self.websockets)
      if count <= (len(self.websockets) - 1) * WS_TOPICS_LIMIT:
          ws = self.websockets.pop()
          recycled_topics.extend(ws.topics.values())
          ws.stop_nowait(remove=True)
      else: break
  \<close>
  Python's integers are unbounded and \<open>len - 1\<close> is \<open>-1\<close> for the empty list; \<open>pop\<close> on
  an empty list raises \<open>IndexError\<close>.
\<close>

function recycle :: "nat \<Rightarrow> WebsocketPool \<Rightarrow> topic list \<Rightarrow> error option \<times> WebsocketPool \<times> topic list" where
  "recycle L pool recycled_topics =
     (let count = sum_list (map (\<lambda>ws. length (topics ws)) (websockets pool)) in
      if int count \<le> (int (length (websockets pool)) - 1) * int L then
        (if websockets pool = [] then (Some IndexError, pool, recycled_topics)
         else recycle L
                (pool\<lparr>websockets := butlast (websockets pool),
                      stopped := stopped pool @ [last (websockets pool)]\<rparr>)
                (recycled_topics @ topics (last (websockets pool))))
      else (None, pool, recycled_topics))"
  by pat_completeness auto
termination
  by (relation "measure (\<lambda>(L, pool, recycled_topics). length (websockets pool))") auto

declare recycle.simps [simp del]

text \<open>
  \<open>WebsocketPool.remove_topics\<close>:
  \<^verbatim>\<open>
  topics_set = set(topics)
  if not topics_set: return
  for ws in self.websockets: ws.remove_topics(topics_set)
  ... the compaction loop above ...
  if recycled_topics: self.add_topics(recycled_topics)
  \<close>
\<close>

definition remove_topics :: "nat \<Rightarrow> nat \<Rightarrow> topic list \<Rightarrow> WebsocketPool \<Rightarrow> error option \<times> WebsocketPool" where
  "remove_topics M L old_topics pool =
     (let topics_set = remdups old_topics in
      if topics_set = [] then (None, pool)
      else
        (case recycle L (pool\<lparr>websockets := remove_each (websockets pool) topics_set\<rparr>) [] of
           (Some e, pool', recycled_topics) \<Rightarrow> (Some e, pool')
         | (None, pool', recycled_topics) \<Rightarrow>
             if recycled_topics = [] then (None, pool') else add_topics M L recycled_topics pool'))"

text \<open>
  The calls the client makes on the pool (\<open>stop\<close> is only ever called with
  \<open>clear_topics=False\<close>, which leaves every topic table alone), and a run of them from the
  pool as \<open>__init__\<close> leaves it. A run goes on after an exception, so that the state an
  exception leaves behind is covered too.
\<close>

datatype pool_call = Start | Stop | Add_topics "topic list" | Remove_topics "topic list"

fun call_pool :: "nat \<Rightarrow> nat \<Rightarrow> pool_call \<Rightarrow> WebsocketPool \<Rightarrow> error option \<times> WebsocketPool" where
  "call_pool M L Start pool =
     (None, pool\<lparr>websockets := map (\<lambda>ws. ws\<lparr>started := True\<rparr>) (websockets pool), running := True\<rparr>)"
| "call_pool M L Stop pool = (None, pool\<lparr>running := False\<rparr>)"
| "call_pool M L (Add_topics ts) pool = add_topics M L ts pool"
| "call_pool M L (Remove_topics ts) pool = remove_topics M L ts pool"

fun run_pool :: "nat \<Rightarrow> nat \<Rightarrow> WebsocketPool \<Rightarrow> pool_call list \<Rightarrow> WebsocketPool" where
  "run_pool M L pool [] = pool"
| "run_pool M L pool (c # cs) = run_pool M L (snd (call_pool M L c pool)) cs"

definition pool_topics :: "WebsocketPool \<Rightarrow> topic list" where
  "pool_topics pool = concat (map topics (websockets pool))"

text \<open>
  The test of the compaction loop fails: the pool holds more topics than one connection
  fewer could take.
\<close>

definition compacted :: "nat \<Rightarrow> WebsocketPool \<Rightarrow> bool" where
  "compacted L pool \<longleftrightarrow>
     (int (length (websockets pool)) - 1) * int L < int (length (pool_topics pool))"

definition pool_inv :: "nat \<Rightarrow> nat \<Rightarrow> WebsocketPool \<Rightarrow> bool" where
  "pool_inv M L pool \<longleftrightarrow>
     length (websockets pool) \<le> M
   \<and> list_all (\<lambda>ws. length (topics ws) \<le> L) (websockets pool)
   \<and> distinct (pool_topics pool)
   \<and> compacted L pool"

definition limit_reached :: error where
  "limit_reached = MinerException ''Maximum topics limit has been reached''"

subsection \<open>Filling one connection\<close>

lemma Websocket_add_topics_fresh:
  assumes "distinct ts" and "set ts \<inter> set (topics ws) = {}"
    and "Websocket_add_topics L ws ts = (ws', rest)"
  shows "topics ws' = topics ws @ take (L - length (topics ws)) ts
       \<and> rest = drop (L - length (topics ws)) ts
       \<and> idx ws' = idx ws \<and> started ws' = started ws"
  using assms
proof (induction ts arbitrary: ws)
  case Nil
  then show ?case by simp
next
  case (Cons t ts)
  show ?case
  proof (cases "length (topics ws) < L")
    case False
    with Cons.prems show ?thesis by simp
  next
    case True
    let ?ws1 = "ws\<lparr>topics := dict_set (topics ws) t, topics_changed := True\<rparr>"
    from Cons.prems(2) have fresh: "t \<notin> set (topics ws)" by auto
    then have t1: "topics ?ws1 = topics ws @ [t]" by (simp add: dict_set_def)
    from Cons.prems(1,2) have d: "distinct ts" and disj: "set ts \<inter> set (topics ?ws1) = {}"
      by (auto simp: t1)
    from Cons.prems(3) True have run: "Websocket_add_topics L ?ws1 ts = (ws', rest)" by simp
    from Cons.IH[OF d disj run] have
      "topics ws' = topics ?ws1 @ take (L - length (topics ?ws1)) ts
       \<and> rest = drop (L - length (topics ?ws1)) ts
       \<and> idx ws' = idx ?ws1 \<and> started ws' = started ?ws1" .
    moreover from True have "L - length (topics ws) = Suc (L - length (topics ?ws1))"
      by (simp add: t1)
    ultimately show ?thesis by (simp add: t1)
  qed
qed

lemma mset_concat_update:
  assumes "i < length wss" and "topics w = topics (wss ! i) @ extra"
  shows "mset (concat (map topics (wss[i := w]))) = mset (concat (map topics wss)) + mset extra"
  using assms
proof (induction wss arbitrary: i)
  case Nil
  then show ?case by simp
next
  case (Cons a wss)
  show ?case
  proof (cases i)
    case 0
    with Cons.prems show ?thesis by simp
  next
    case (Suc j)
    with Cons.prems have "j < length wss" and "topics w = topics (wss ! j) @ extra" by simp_all
    from Cons.IH[OF this] Suc show ?thesis by simp
  qed
qed

lemma compacted_iff:
  "compacted L p \<longleftrightarrow> length (websockets p) * L < length (pool_topics p) + L"
proof -
  have "(int (length (websockets p)) - 1) * int L = int (length (websockets p) * L) - int L"
    by (simp add: algebra_simps)
  then show ?thesis unfolding compacted_def by linarith
qed

lemma total_le:
  "list_all (\<lambda>ws. length (topics ws) \<le> L) wss \<Longrightarrow> length (concat (map topics wss)) \<le> length wss * L"
  by (induction wss) auto

lemma total_full:
  "\<forall>j < length wss. length (topics (wss ! j)) = L \<Longrightarrow> length (concat (map topics wss)) = length wss * L"
proof (induction wss)
  case Nil
  then show ?case by simp
next
  case (Cons a wss)
  from Cons.prems have "length (topics a) = L" by auto
  moreover from Cons.prems have "\<forall>j < length wss. length (topics (wss ! j)) = L" by auto
  ultimately show ?case using Cons.IH by simp
qed

lemma total_sum:
  "sum_list (map (\<lambda>ws. length (topics ws)) wss) = length (concat (map topics wss))"
  by (induction wss) auto

lemma nth_topics_subset:
  assumes "i < length wss"
  shows "set (topics (wss ! i)) \<subseteq> set (concat (map topics wss))"
proof
  fix x assume "x \<in> set (topics (wss ! i))"
  moreover from assms have "wss ! i \<in> set wss" by simp
  ultimately show "x \<in> set (concat (map topics wss))" by auto
qed

subsection \<open>The loop of add_topics\<close>

lemma add_loop_correct:
  assumes L: "0 < L"
  shows "\<lbrakk> i \<le> length (websockets p); length (websockets p) \<le> M;
           list_all (\<lambda>ws. length (topics ws) \<le> L) (websockets p);
           \<forall>j < i. length (topics (websockets p ! j)) = L;
           distinct (pool_topics p @ ts); ts \<noteq> []; compacted L p;
           add_loop M L i p ts = (e, p') \<rbrakk>
     \<Longrightarrow> pool_inv M L p'
       \<and> (e = None \<longleftrightarrow> length (pool_topics p) + length ts \<le> M * L)
       \<and> (e = None \<longrightarrow> mset (pool_topics p') = mset (pool_topics p) + mset ts)
       \<and> (e \<noteq> None \<longrightarrow> e = Some limit_reached \<and> length (websockets p') = M
              \<and> list_all (\<lambda>ws. length (topics ws) = L) (websockets p')
              \<and> set (pool_topics p) \<subseteq> set (pool_topics p'))
       \<and> running p' = running p \<and> stopped p' = stopped p"
proof (induction "M - i" arbitrary: i p ts rule: less_induct)
  case less
  note prems = less.prems
  let ?wss = "websockets p"
  let ?n = "length ?wss"
  show ?case
  proof (cases "i < M")
    case False
    with prems(1,2) have iM: "i = M" and nM: "?n = M" by simp_all
    from prems(8) False have res: "e = Some limit_reached" "p' = p"
      by (simp_all add: add_loop.simps[of M L i p ts] limit_reached_def)
    from prems(4) iM nM have full: "\<forall>j < ?n. length (topics (?wss ! j)) = L" by simp
    then have tot: "length (pool_topics p) = M * L"
      using total_full[of ?wss L] nM by (simp add: pool_topics_def)
    from full have all_full: "list_all (\<lambda>ws. length (topics ws) = L) ?wss"
      by (simp add: list_all_length)
    have inv: "pool_inv M L p"
      using prems(2,3,5,7) by (simp add: pool_inv_def)
    from prems(6) have "0 < length ts" by simp
    with tot inv all_full res nM show ?thesis by simp
  next
    case True
    let ?is_old = "i < ?n"
    let ?wss1 = "if ?is_old then ?wss else ?wss @ [(new_Websocket i)\<lparr>started := running p\<rparr>]"
    from prems(1) have pos: "(if ?is_old then i else ?n) = i" by simp
    obtain ws' rest where wa: "Websocket_add_topics L (?wss1 ! i) ts = (ws', rest)"
      by (cases "Websocket_add_topics L (?wss1 ! i) ts") 
    let ?p1 = "p\<lparr>websockets := ?wss1[i := ws']\<rparr>"
    have step: "add_loop M L i p ts = (if rest = [] then (None, ?p1) else add_loop M L (Suc i) ?p1 rest)"
      using True wa pos by (simp add: add_loop.simps[of M L i p ts] Let_def)
    have len1: "i < length ?wss1" and len1M: "length ?wss1 \<le> M"
      using prems(1,2) True by auto
    have pt1: "concat (map topics ?wss1) = pool_topics p"
      by (simp add: pool_topics_def new_Websocket_def)
    have all1: "list_all (\<lambda>ws. length (topics ws) \<le> L) ?wss1"
      using prems(3) by (simp add: new_Websocket_def)
    have full1: "\<forall>j < i. length (topics (?wss1 ! j)) = L"
      using prems(1,4) by (simp add: nth_append)
    from prems(5) have dts: "distinct ts" and dpt: "distinct (pool_topics p)"
      and disj: "set (pool_topics p) \<inter> set ts = {}"
      by auto
    have "set (topics (?wss1 ! i)) \<subseteq> set (pool_topics p)"
      using nth_topics_subset[OF len1] pt1 by simp
    with disj have fresh: "set ts \<inter> set (topics (?wss1 ! i)) = {}" by auto
    let ?k = "L - length (topics (?wss1 ! i))"
    from Websocket_add_topics_fresh[OF dts fresh wa] have
      tw: "topics ws' = topics (?wss1 ! i) @ take ?k ts" and rest: "rest = drop ?k ts"
      by simp_all
    from all1 len1 have len0: "length (topics (?wss1 ! i)) \<le> L"
      by (simp add: list_all_length)
    have ms1: "mset (pool_topics ?p1) = mset (pool_topics p) + mset (take ?k ts)"
      using mset_concat_update[OF len1 tw] pt1 by (simp add: pool_topics_def)
    have ms2: "mset (pool_topics ?p1) + mset rest = mset (pool_topics p) + mset ts"
    proof -
      have "mset (take ?k ts) + mset (drop ?k ts) = mset ts"
        by (metis append_take_drop_id mset_append)
      with ms1 rest show ?thesis by (simp add: add.assoc)
    qed
    have tot1: "length (pool_topics ?p1) = length (pool_topics p) + length (take ?k ts)"
      using ms1 by (metis size_mset size_union)
    have lenw: "length (topics ws') \<le> L"
      using tw len0 by simp
    have all_p1: "list_all (\<lambda>ws. length (topics ws) \<le> L) (websockets ?p1)"
    proof -
      have "set (?wss1[i := ws']) \<subseteq> insert ws' (set ?wss1)"
        by (rule set_update_subset_insert)
      with all1 lenw show ?thesis by (auto simp: list_all_iff)
    qed
    have lenp1: "length (websockets ?p1) = length ?wss1" by simp
    have new_tot: "\<not> ?is_old \<Longrightarrow> length (pool_topics p) = ?n * L"
    proof -
      assume "\<not> ?is_old"
      with prems(1) have "i = ?n" by simp
      with prems(4) show ?thesis using total_full[of ?wss L] by (simp add: pool_topics_def)
    qed
    show ?thesis
    proof (cases "rest = []")
      case True
      with rest have kts: "take ?k ts = ts" by simp
      from step True prems(8) have res: "e = None" "p' = ?p1" by simp_all
      have dist: "distinct (pool_topics ?p1)"
      proof -
        from ms1 kts have "mset (pool_topics ?p1) = mset (pool_topics p @ ts)" by simp
        from mset_eq_imp_distinct_iff[OF this] prems(5) show ?thesis by simp
      qed
      have comp: "compacted L ?p1"
      proof (cases ?is_old)
        case True
        with prems(7) tot1 show ?thesis by (simp add: compacted_iff)
      next
        case False
        from new_tot[OF False] prems(6) tot1 kts False show ?thesis
          by (simp add: compacted_iff)
      qed
      have le: "length (pool_topics p) + length ts \<le> M * L"
      proof -
        have "length (pool_topics ?p1) \<le> length (websockets ?p1) * L"
          using total_le[OF all_p1] by (simp add: pool_topics_def)
        also have "\<dots> \<le> M * L" using len1M lenp1 by simp
        finally show ?thesis using tot1 kts by simp
      qed
      have "pool_inv M L ?p1"
        using len1M all_p1 dist comp by (simp add: pool_inv_def)
      with res le ms1 kts show ?thesis by simp
    next
      case False
      with rest have klt: "?k < length ts" by simp
      with tw len0 have wfull: "length (topics ws') = L" by simp
      from step False prems(8) have rec: "add_loop M L (Suc i) ?p1 rest = (e, p')" by simp
      have c1: "Suc i \<le> length (websockets ?p1)" using len1 by simp
      have c2: "length (websockets ?p1) \<le> M" using len1M by simp
      have c4: "\<forall>j < Suc i. length (topics (websockets ?p1 ! j)) = L"
      proof (intro allI impI)
        fix j assume "j < Suc i"
        then consider "j < i" | "j = i" by linarith
        then show "length (topics (websockets ?p1 ! j)) = L"
        proof cases
          case 1
          with full1 len1 show ?thesis by simp
        next
          case 2
          with wfull len1 show ?thesis by simp
        qed
      qed
      have c5: "distinct (pool_topics ?p1 @ rest)"
      proof -
        from ms2 have "mset (pool_topics ?p1 @ rest) = mset (pool_topics p @ ts)" by simp
        from mset_eq_imp_distinct_iff[OF this] prems(5) show ?thesis by simp
      qed
      have c7: "compacted L ?p1"
      proof (cases ?is_old)
        case True
        with prems(7) tot1 show ?thesis by (simp add: compacted_iff)
      next
        case False
        from klt len0 have "length (take ?k ts) = ?k" by simp
        moreover from False have "length (topics (?wss1 ! i)) = 0"
          using prems(1) by (simp add: new_Websocket_def nth_append)
        ultimately show ?thesis using new_tot[OF False] tot1 False L
          by (simp add: compacted_iff)
      qed
      have m: "M - Suc i < M - i" using True by simp
      from less.hyps[OF m c1 c2 all_p1 c4 c5 False c7 rec] have IH:
        "pool_inv M L p'"
        "e = None \<longleftrightarrow> length (pool_topics ?p1) + length rest \<le> M * L"
        "e = None \<longrightarrow> mset (pool_topics p') = mset (pool_topics ?p1) + mset rest"
        "e \<noteq> None \<longrightarrow> e = Some limit_reached \<and> length (websockets p') = M
              \<and> list_all (\<lambda>ws. length (topics ws) = L) (websockets p')
              \<and> set (pool_topics ?p1) \<subseteq> set (pool_topics p')"
        "running p' = running ?p1 \<and> stopped p' = stopped ?p1"
        by blast+
      have tot2: "length (pool_topics ?p1) + length rest = length (pool_topics p) + length ts"
        using ms2 by (metis size_mset size_union)
      have sub: "set (pool_topics p) \<subseteq> set (pool_topics ?p1)"
        using ms1 by (metis set_mset_mset set_mset_union Un_upper1 union_iff subsetI)
      from IH tot2 ms2 sub show ?thesis by auto
    qed
  qed
qed


lemma add_loop_stopped:
  "add_loop M L i p ts = (e, p') \<Longrightarrow> stopped p' = stopped p"
proof (induction "M - i" arbitrary: i p ts rule: less_induct)
  case less
  show ?case
  proof (cases "i < M")
    case False
    with less.prems show ?thesis by (simp add: add_loop.simps[of M L i p ts])
  next
    case True
    let ?n = "length (websockets p)"
    let ?pos = "if i < ?n then i else ?n"
    let ?wss = "if i < ?n then websockets p
                else websockets p @ [(new_Websocket i)\<lparr>started := running p\<rparr>]"
    obtain ws rest where wa: "Websocket_add_topics L (?wss ! ?pos) ts = (ws, rest)"
      by (cases "Websocket_add_topics L (?wss ! ?pos) ts")
    let ?p1 = "p\<lparr>websockets := ?wss[?pos := ws]\<rparr>"
    from less.prems True wa have
      step: "(e, p') = (if rest = [] then (None, ?p1) else add_loop M L (Suc i) ?p1 rest)"
      by (simp add: add_loop.simps[of M L i p ts] Let_def)
    show ?thesis
    proof (cases "rest = []")
      case True
      with step show ?thesis by simp
    next
      case False
      with step have "add_loop M L (Suc i) ?p1 rest = (e, p')" by simp
      moreover have "M - Suc i < M - i" using \<open>i < M\<close> by simp
      ultimately have "stopped p' = stopped ?p1" by (rule less.hyps[rotated])
      then show ?thesis by simp
    qed
  qed
qed

lemma fresh_iff:
  "(\<forall>ws \<in> set (websockets p). t \<notin> set (topics ws)) \<longleftrightarrow> t \<notin> set (pool_topics p)"
  by (auto simp: pool_topics_def)

lemma pool_inv_total:
  assumes "pool_inv M L p"
  shows "length (pool_topics p) \<le> M * L"
proof -
  from assms have "length (pool_topics p) \<le> length (websockets p) * L"
    using total_le[of L "websockets p"] by (simp add: pool_inv_def pool_topics_def)
  also from assms have "\<dots> \<le> M * L" by (simp add: pool_inv_def)
  finally show ?thesis .
qed

lemma add_topics_correct:
  assumes L: "0 < L" and inv: "pool_inv M L p" and run: "add_topics M L ts p = (e, p')"
  shows "pool_inv M L p'
       \<and> (e = None \<longleftrightarrow> card (set (pool_topics p) \<union> set ts) \<le> M * L)
       \<and> (e = None \<longrightarrow> set (pool_topics p') = set (pool_topics p) \<union> set ts)
       \<and> (e \<noteq> None \<longrightarrow> e = Some limit_reached \<and> length (websockets p') = M
              \<and> list_all (\<lambda>ws. length (topics ws) = L) (websockets p')
              \<and> set (pool_topics p) \<subseteq> set (pool_topics p'))
       \<and> running p' = running p \<and> stopped p' = stopped p"
proof -
  let ?ts2 = "filter (\<lambda>t. t \<notin> set (pool_topics p)) (remdups ts)"
  from inv have dpt: "distinct (pool_topics p)" by (simp add: pool_inv_def)
  have d: "distinct (pool_topics p @ ?ts2)" using dpt by auto
  have s: "set (pool_topics p @ ?ts2) = set (pool_topics p) \<union> set ts" by auto
  have card: "card (set (pool_topics p) \<union> set ts) = length (pool_topics p) + length ?ts2"
    using distinct_card[OF d] s by simp
  show ?thesis
  proof (cases "?ts2 = []")
    case True
    then have "add_topics M L ts p = (None, p)"
      by (auto simp: add_topics_def fresh_iff Let_def)
    with run have res: "e = None" "p' = p" by simp_all
    from True s have "set (pool_topics p) \<union> set ts = set (pool_topics p)" by auto
    with res inv card True pool_inv_total[OF inv] show ?thesis by simp
  next
    case False
    then have "remdups ts \<noteq> []" by auto
    with False have "add_topics M L ts p = add_loop M L 0 p ?ts2"
      by (simp add: add_topics_def fresh_iff Let_def)
    with run have loop: "add_loop M L 0 p ?ts2 = (e, p')" by simp
    from inv have c: "length (websockets p) \<le> M"
      "list_all (\<lambda>ws. length (topics ws) \<le> L) (websockets p)" "compacted L p"
      by (simp_all add: pool_inv_def)
    have c0: "0 \<le> length (websockets p)" and c4: "\<forall>j < 0. length (topics (websockets p ! j)) = L"
      by simp_all
    from add_loop_correct[OF L c0 c(1) c(2) c4 d False c(3) loop] have R:
      "pool_inv M L p'"
      "e = None \<longleftrightarrow> length (pool_topics p) + length ?ts2 \<le> M * L"
      "e = None \<longrightarrow> mset (pool_topics p') = mset (pool_topics p) + mset ?ts2"
      "e \<noteq> None \<longrightarrow> e = Some limit_reached \<and> length (websockets p') = M
              \<and> list_all (\<lambda>ws. length (topics ws) = L) (websockets p')
              \<and> set (pool_topics p) \<subseteq> set (pool_topics p')"
      "running p' = running p \<and> stopped p' = stopped p"
      by blast+
    have "set (pool_topics p') = set (pool_topics p) \<union> set ts" if "e = None"
    proof -
      from R(3) that have "mset (pool_topics p') = mset (pool_topics p @ ?ts2)" by simp
      then have "set (pool_topics p') = set (pool_topics p @ ?ts2)" by (rule mset_eq_setD)
      with s show ?thesis by simp
    qed
    with R card show ?thesis by simp
  qed
qed

lemma Websocket_remove_topics_topics:
  assumes "Websocket_remove_topics ws ts = (ws', ts')"
  shows "topics ws' = filter (\<lambda>t. t \<notin> set ts) (topics ws)"
    and "set ts' = set ts - set (topics ws)"
    and "idx ws' = idx ws" and "started ws' = started ws"
proof -
  let ?ex = "filter (\<lambda>t. t \<in> set (topics ws)) ts"
  have same: "filter (\<lambda>t. t \<notin> set ?ex) (topics ws) = filter (\<lambda>t. t \<notin> set ts) (topics ws)"
    by (rule filter_cong) auto
  show "topics ws' = filter (\<lambda>t. t \<notin> set ts) (topics ws)"
  proof (cases "?ex = []")
    case True
    then have "\<forall>t \<in> set (topics ws). t \<notin> set ts" by (auto simp: filter_empty_conv)
    then have "filter (\<lambda>t. t \<notin> set ts) (topics ws) = topics ws" by simp
    with True assms show ?thesis by (simp add: Websocket_remove_topics_def)
  next
    case False
    with assms same show ?thesis by (auto simp: Websocket_remove_topics_def Let_def)
  qed
  show "set ts' = set ts - set (topics ws)"
  proof (cases "?ex = []")
    case True
    then have "\<forall>t \<in> set ts. t \<notin> set (topics ws)" by (auto simp: filter_empty_conv)
    with True assms show ?thesis by (auto simp: Websocket_remove_topics_def)
  next
    case False
    with assms show ?thesis by (auto simp: Websocket_remove_topics_def Let_def)
  qed
  show "idx ws' = idx ws" and "started ws' = started ws"
    using assms by (auto simp: Websocket_remove_topics_def Let_def split: if_splits)
qed

lemma remove_each_topics:
  assumes "distinct (concat (map topics wss))"
  shows "map topics (remove_each wss ts) = map (\<lambda>ws. filter (\<lambda>t. t \<notin> set ts) (topics ws)) wss"
  using assms
proof (induction wss arbitrary: ts)
  case Nil
  then show ?case by simp
next
  case (Cons ws wss)
  obtain ws' ts' where r: "Websocket_remove_topics ws ts = (ws', ts')"
    by (cases "Websocket_remove_topics ws ts")
  note w = Websocket_remove_topics_topics[OF r]
  from Cons.prems have d: "distinct (concat (map topics wss))"
    and disj: "set (topics ws) \<inter> set (concat (map topics wss)) = {}"
    by auto
  have "filter (\<lambda>t. t \<notin> set ts') (topics v) = filter (\<lambda>t. t \<notin> set ts) (topics v)"
    if "v \<in> set wss" for v
  proof (rule filter_cong[OF refl])
    fix t assume "t \<in> set (topics v)"
    with that disj have "t \<notin> set (topics ws)" by auto
    with w(2) show "(t \<notin> set ts') = (t \<notin> set ts)" by simp
  qed
  then have "map (\<lambda>ws. filter (\<lambda>t. t \<notin> set ts') (topics ws)) wss
           = map (\<lambda>ws. filter (\<lambda>t. t \<notin> set ts) (topics ws)) wss"
    by simp
  with Cons.IH[OF d, of ts'] r w(1) show ?case by simp
qed

lemma remove_each_length: "length (remove_each wss ts) = length wss"
  by (induction wss arbitrary: ts) (auto split: prod.splits)

lemma remove_each_pool_topics:
  assumes "distinct (concat (map topics wss))"
  shows "concat (map topics (remove_each wss ts)) = filter (\<lambda>t. t \<notin> set ts) (concat (map topics wss))"
  using remove_each_topics[OF assms, of ts] by (simp add: filter_concat comp_def)

lemma remove_each_bound:
  assumes "distinct (concat (map topics wss))"
    and "list_all (\<lambda>ws. length (topics ws) \<le> L) wss"
  shows "list_all (\<lambda>ws. length (topics ws) \<le> L) (remove_each wss ts)"
proof -
  have "list_all (\<lambda>xs. length xs \<le> L) (map topics (remove_each wss ts))"
    unfolding remove_each_topics[OF assms(1)]
    using assms(2) by (auto simp: list_all_iff intro: le_trans[OF length_filter_le])
  then show ?thesis by (simp add: list_all_iff)
qed

subsection \<open>Compaction and the invariant of a run\<close>

lemma recycle_test:
  "int (sum_list (map (\<lambda>ws. length (topics ws)) (websockets p)))
      \<le> (int (length (websockets p)) - 1) * int L \<longleftrightarrow> \<not> compacted L p"
  by (simp add: compacted_def pool_topics_def total_sum not_less)

lemma recycle_correct:
  assumes L: "0 < L"
  shows "recycle L p rec = (e, p2, rec2) \<Longrightarrow>
     e = None \<and> compacted L p2 \<and> running p2 = running p
     \<and> mset (pool_topics p2) + mset rec2 = mset (pool_topics p) + mset rec
     \<and> (\<exists>k \<le> length (websockets p).
           websockets p2 = take k (websockets p)
         \<and> stopped p2 = stopped p @ rev (drop k (websockets p))
         \<and> (\<forall>j. k < j \<and> j \<le> length (websockets p) \<longrightarrow>
               \<not> compacted L (p\<lparr>websockets := take j (websockets p)\<rparr>)))"
proof (induction "length (websockets p)" arbitrary: p rec rule: less_induct)
  case less
  let ?wss = "websockets p"
  show ?case
  proof (cases "compacted L p")
    case True
    with less.prems have "e = None" "p2 = p" "rec2 = rec"
      by (simp_all add: recycle.simps[of L p rec] recycle_test del: of_nat_mult of_nat_add)
    with True show ?thesis by (intro conjI exI[of _ "length ?wss"]) simp_all
  next
    case False
    have ne: "?wss \<noteq> []"
    proof
      assume "?wss = []"
      with L have "compacted L p" by (simp add: compacted_def)
      with False show False by simp
    qed
    let ?p1 = "p\<lparr>websockets := butlast ?wss, stopped := stopped p @ [last ?wss]\<rparr>"
    let ?rec1 = "rec @ topics (last ?wss)"
    from less.prems False ne have rec: "recycle L ?p1 ?rec1 = (e, p2, rec2)"
      by (simp add: recycle.simps[of L p rec] recycle_test del: of_nat_mult of_nat_add)
    have m: "length (websockets ?p1) < length ?wss" using ne by simp
    from less.hyps[OF m rec] obtain k where IH:
      "e = None" "compacted L p2" "running p2 = running ?p1"
      "mset (pool_topics p2) + mset rec2 = mset (pool_topics ?p1) + mset ?rec1"
      "k \<le> length (websockets ?p1)"
      "websockets p2 = take k (websockets ?p1)"
      "stopped p2 = stopped ?p1 @ rev (drop k (websockets ?p1))"
      "\<forall>j. k < j \<and> j \<le> length (websockets ?p1) \<longrightarrow>
           \<not> compacted L (?p1\<lparr>websockets := take j (websockets ?p1)\<rparr>)"
      by blast
    from IH(5) have kn: "k \<le> length ?wss - 1" by simp
    have split: "?wss = butlast ?wss @ [last ?wss]" using ne by simp
    have pt: "pool_topics p = pool_topics ?p1 @ topics (last ?wss)"
    proof -
      have "concat (map topics ?wss) = concat (map topics (butlast ?wss @ [last ?wss]))"
        using split by simp
      then show ?thesis by (simp add: pool_topics_def)
    qed
    from kn ne have klt: "k < length ?wss" by (cases ?wss) simp_all
    have tk: "take k (butlast ?wss) = take k ?wss"
      using klt by (rule take_butlast)
    have dr: "drop k ?wss = drop k (butlast ?wss) @ [last ?wss]"
    proof -
      have "drop k (butlast ?wss @ [last ?wss]) = drop k (butlast ?wss) @ [last ?wss]"
        using kn by simp
      with split show ?thesis by simp
    qed
    have nc: "\<not> compacted L (p\<lparr>websockets := take j ?wss\<rparr>)"
      if "k < j" and "j \<le> length ?wss" for j
    proof (cases "j = length ?wss")
      case True
      with False show ?thesis by simp
    next
      case False
      with that have j: "j \<le> length (websockets ?p1)" and jlt: "j < length ?wss" by simp_all
      with that IH(8) have "\<not> compacted L (?p1\<lparr>websockets := take j (websockets ?p1)\<rparr>)" by simp
      moreover have "take j (butlast ?wss) = take j ?wss"
        using jlt by (rule take_butlast)
      ultimately show ?thesis by (simp add: compacted_def pool_topics_def)
    qed
    show ?thesis
    proof (intro conjI exI[of _ k])
      show "e = None" by (rule IH(1))
      show "compacted L p2" by (rule IH(2))
      show "running p2 = running p" using IH(3) by simp
      show "mset (pool_topics p2) + mset rec2 = mset (pool_topics p) + mset rec"
        using IH(4) pt by simp
      show "k \<le> length ?wss" using kn by simp
      show "websockets p2 = take k ?wss" using IH(6) tk by simp
      show "stopped p2 = stopped p @ rev (drop k ?wss)" using IH(7) dr by simp
      show "\<forall>j. k < j \<and> j \<le> length ?wss \<longrightarrow> \<not> compacted L (p\<lparr>websockets := take j ?wss\<rparr>)"
        using nc by blast
    qed
  qed
qed

lemma compacted_nonempty:
  assumes "compacted L p" and "list_all (\<lambda>ws. length (topics ws) \<le> L) (websockets p)"
    and "ws \<in> set (websockets p)"
  shows "topics ws \<noteq> []"
proof
  assume empty: "topics ws = []"
  from assms(3) obtain xs ys where sp: "websockets p = xs @ ws # ys"
    by (auto simp: in_set_conv_decomp)
  from assms(2) sp have "list_all (\<lambda>ws. length (topics ws) \<le> L) (xs @ ys)" by simp
  from total_le[OF this] have "length (concat (map topics (xs @ ys))) \<le> (length xs + length ys) * L"
    by simp
  moreover have "length (pool_topics p) = length (concat (map topics (xs @ ys)))"
    using sp empty by (simp add: pool_topics_def)
  moreover from assms(1) sp have "(length xs + length ys + 1) * L < length (pool_topics p) + L"
    by (simp add: compacted_iff)
  ultimately show False by (simp add: algebra_simps)
qed

lemma remove_topics_correct:
  assumes L: "0 < L" and inv: "pool_inv M L p" and run: "remove_topics M L ts p = (e, p')"
  shows "e = None \<and> pool_inv M L p'
       \<and> set (pool_topics p') = set (pool_topics p) - set ts
       \<and> running p' = running p"
proof (cases "remdups ts = []")
  case True
  with run have "e = None" "p' = p" by (simp_all add: remove_topics_def)
  moreover from True have "set ts = {}" by (metis set_remdups set_empty)
  ultimately show ?thesis using inv by simp
next
  case False
  let ?wss1 = "remove_each (websockets p) (remdups ts)"
  let ?p1 = "p\<lparr>websockets := ?wss1\<rparr>"
  from inv have dpt: "distinct (concat (map topics (websockets p)))"
    and bound: "list_all (\<lambda>ws. length (topics ws) \<le> L) (websockets p)"
    and lenM: "length (websockets p) \<le> M"
    by (simp_all add: pool_inv_def pool_topics_def)
  have pt1: "pool_topics ?p1 = filter (\<lambda>t. t \<notin> set ts) (pool_topics p)"
    using remove_each_pool_topics[OF dpt, of "remdups ts"] by (simp add: pool_topics_def)
  have d1: "distinct (pool_topics ?p1)" unfolding pt1 using dpt by (simp add: pool_topics_def)
  have b1: "list_all (\<lambda>ws. length (topics ws) \<le> L) ?wss1"
    using dpt bound by (rule remove_each_bound)
  obtain e1 p2 rec2 where rc: "recycle L ?p1 [] = (e1, p2, rec2)"
    by (cases "recycle L ?p1 []") 
  from recycle_correct[OF L rc] obtain k where R:
    "e1 = None" "compacted L p2" "running p2 = running ?p1"
    "mset (pool_topics p2) + mset rec2 = mset (pool_topics ?p1) + mset []"
    "k \<le> length (websockets ?p1)"
    "websockets p2 = take k (websockets ?p1)"
    by blast
  from R(4) have ms: "mset (pool_topics p2 @ rec2) = mset (pool_topics ?p1)" by simp
  from mset_eq_imp_distinct_iff[OF ms] d1 have d2: "distinct (pool_topics p2 @ rec2)" by simp
  from ms have s2: "set (pool_topics p2) \<union> set rec2 = set (pool_topics ?p1)"
    by (metis mset_eq_setD set_append)
  from ms have l2: "length (pool_topics p2) + length rec2 = length (pool_topics ?p1)"
    by (metis length_append size_mset)
  have b2: "list_all (\<lambda>ws. length (topics ws) \<le> L) (websockets p2)"
    using b1 R(6) by (auto simp: list_all_iff dest: in_set_takeD)
  have len2: "length (websockets p2) \<le> M"
    using R(5,6) lenM by (simp add: remove_each_length)
  have inv2: "pool_inv M L p2"
    using len2 b2 d2 R(2) by (simp add: pool_inv_def)
  have tot1: "length (pool_topics ?p1) \<le> M * L"
  proof -
    have "length (pool_topics ?p1) \<le> length ?wss1 * L"
      using total_le[OF b1] by (simp add: pool_topics_def)
    also have "\<dots> \<le> M * L" using lenM by (simp add: remove_each_length)
    finally show ?thesis .
  qed
  from run False rc R(1) have fin:
    "(e, p') = (if rec2 = [] then (None, p2) else add_topics M L rec2 p2)"
    by (simp add: remove_topics_def)
  show ?thesis
  proof (cases "rec2 = []")
    case True
    with fin have "e = None" "p' = p2" by simp_all
    with inv2 s2 True R(3) pt1 show ?thesis by auto
  next
    case False
    with fin have at: "add_topics M L rec2 p2 = (e, p')" by simp
    from add_topics_correct[OF L inv2 at] have A:
      "pool_inv M L p'"
      "e = None \<longleftrightarrow> card (set (pool_topics p2) \<union> set rec2) \<le> M * L"
      "e = None \<longrightarrow> set (pool_topics p') = set (pool_topics p2) \<union> set rec2"
      "running p' = running p2"
      by blast+
    have "card (set (pool_topics p2) \<union> set rec2) = length (pool_topics ?p1)"
      using distinct_card[OF d2] l2 by simp
    with A(2) tot1 have "e = None" by simp
    with A s2 R(3) pt1 show ?thesis by auto
  qed
qed

lemma pool_inv_empty: "0 < L \<Longrightarrow> pool_inv M L empty_pool"
  by (simp add: pool_inv_def empty_pool_def compacted_def pool_topics_def)

lemma call_pool_inv:
  assumes L: "0 < L" and inv: "pool_inv M L p"
  shows "pool_inv M L (snd (call_pool M L c p))"
proof (cases c)
  case Start
  have "map topics (map (\<lambda>ws. ws\<lparr>started := True\<rparr>) (websockets p)) = map topics (websockets p)"
    by simp
  with inv Start show ?thesis
    by (simp add: pool_inv_def compacted_def pool_topics_def list_all_iff comp_def)
next
  case Stop
  with inv show ?thesis by (simp add: pool_inv_def compacted_def pool_topics_def)
next
  case (Add_topics ts)
  obtain e p' where r: "add_topics M L ts p = (e, p')" by (cases "add_topics M L ts p")
  from add_topics_correct[OF L inv r] Add_topics r show ?thesis by simp
next
  case (Remove_topics ts)
  obtain e p' where r: "remove_topics M L ts p = (e, p')" by (cases "remove_topics M L ts p")
  from remove_topics_correct[OF L inv r] Remove_topics r show ?thesis by simp
qed

lemma run_pool_inv:
  assumes L: "0 < L"
  shows "pool_inv M L p \<Longrightarrow> pool_inv M L (run_pool M L p calls)"
proof (induction calls arbitrary: p)
  case Nil
  then show ?case by simp
next
  case (Cons c cs)
  from call_pool_inv[OF L Cons.prems] have "pool_inv M L (snd (call_pool M L c p))" .
  from Cons.IH[OF this] show ?case by simp
qed

lemma distinct_concat_nth_disjoint:
  assumes "distinct (concat xss)" and "i < j" and "j < length xss"
  shows "set (xss ! i) \<inter> set (xss ! j) = {}"
  using assms
proof (induction xss arbitrary: i j)
  case Nil
  then show ?case by simp
next
  case (Cons xs xss)
  from Cons.prems(2) obtain j' where j: "j = Suc j'" by (cases j) simp_all
  with Cons.prems(3) have j'len: "j' < length xss" by simp
  show ?case
  proof (cases i)
    case 0
    from j'len have "xss ! j' \<in> set xss" by simp
    then have "set (xss ! j') \<subseteq> set (concat xss)" by auto
    with Cons.prems(1) 0 j show ?thesis by auto
  next
    case (Suc i')
    with Cons.prems j have "distinct (concat xss)" "i' < j'" by simp_all
    from Cons.IH[OF this j'len] Suc j show ?thesis by simp
  qed
qed

lemma remove_each_Nil: "remove_each wss [] = wss"
  by (induction wss) (auto simp: Websocket_remove_topics_def)

lemma remove_topics_stopped:
  assumes L: "0 < L" and inv: "pool_inv M L p" and run: "remove_topics M L ts p = (e, p')"
  shows "\<exists>k \<le> length (websockets p).
           stopped p' = stopped p @ rev (drop k (remove_each (websockets p) (remdups ts)))
         \<and> compacted L (p\<lparr>websockets := take k (remove_each (websockets p) (remdups ts))\<rparr>)
         \<and> (\<forall>j. k < j \<and> j \<le> length (websockets p) \<longrightarrow>
               \<not> compacted L (p\<lparr>websockets := take j (remove_each (websockets p) (remdups ts))\<rparr>))"
proof (cases "remdups ts = []")
  case True
  with run have "p' = p" by (simp add: remove_topics_def)
  with True inv show ?thesis
    by (intro exI[of _ "length (websockets p)"]) (simp add: remove_each_Nil pool_inv_def)
next
  case False
  let ?wss1 = "remove_each (websockets p) (remdups ts)"
  let ?p1 = "p\<lparr>websockets := ?wss1\<rparr>"
  obtain e1 p2 rec2 where rc: "recycle L ?p1 [] = (e1, p2, rec2)"
    by (cases "recycle L ?p1 []")
  from recycle_correct[OF L rc] obtain k where R:
    "e1 = None" "compacted L p2"
    "k \<le> length (websockets ?p1)"
    "websockets p2 = take k (websockets ?p1)"
    "stopped p2 = stopped ?p1 @ rev (drop k (websockets ?p1))"
    "\<forall>j. k < j \<and> j \<le> length (websockets ?p1) \<longrightarrow>
         \<not> compacted L (?p1\<lparr>websockets := take j (websockets ?p1)\<rparr>)"
    by blast
  from run False rc R(1) have fin:
    "(e, p') = (if rec2 = [] then (None, p2) else add_topics M L rec2 p2)"
    by (simp add: remove_topics_def)
  have st: "stopped p' = stopped p2"
  proof (cases "rec2 = []")
    case True
    with fin show ?thesis by simp
  next
    case False
    with fin have "add_topics M L rec2 p2 = (e, p')" by simp
    then show ?thesis
      by (auto simp: add_topics_def Let_def split: if_splits dest: add_loop_stopped)
  qed
  have c: "compacted L (p\<lparr>websockets := take k ?wss1\<rparr>)"
    using R(2,4) by (simp add: compacted_def pool_topics_def)
  show ?thesis
  proof (intro exI[of _ k] conjI)
    show "k \<le> length (websockets p)" using R(3) by (simp add: remove_each_length)
    show "stopped p' = stopped p @ rev (drop k ?wss1)" using st R(5) by simp
    show "compacted L (p\<lparr>websockets := take k ?wss1\<rparr>)" by (rule c)
    show "\<forall>j. k < j \<and> j \<le> length (websockets p) \<longrightarrow> \<not> compacted L (p\<lparr>websockets := take j ?wss1\<rparr>)"
      using R(6) by (simp add: remove_each_length)
  qed
qed

subsection \<open>The pool after any sequence of calls\<close>

lemma distinct_concat_unique_index:
  assumes "distinct (concat xss)" and "t \<in> set (concat xss)"
  shows "\<exists>!i. i < length xss \<and> t \<in> set (xss ! i)"
proof -
  from assms(2) obtain xs where "xs \<in> set xss" and txs: "t \<in> set xs" by auto
  then obtain i where i: "i < length xss" "xss ! i = xs" by (auto simp: in_set_conv_nth)
  show ?thesis
  proof (rule ex1I[of _ i])
    show "i < length xss \<and> t \<in> set (xss ! i)" using i txs by simp
  next
    fix j assume j: "j < length xss \<and> t \<in> set (xss ! j)"
    show "j = i"
    proof (rule ccontr)
      assume "j \<noteq> i"
      then consider "i < j" | "j < i" by linarith
      then show False
      proof cases
        case 1
        from distinct_concat_nth_disjoint[OF assms(1) 1] j i txs show False by auto
      next
        case 2
        from distinct_concat_nth_disjoint[OF assms(1) 2 i(1)] j i txs show False by auto
      qed
    qed
  qed
qed

text \<open>
  Claim C2. In every pool reached by a sequence of calls from the empty pool, each connection
  holds at most \<open>WS_TOPICS_LIMIT\<close> topics, the pool holds at most
  \<open>MAX_WEBSOCKETS \<times> WS_TOPICS_LIMIT\<close> topics in at most \<open>MAX_WEBSOCKETS\<close> connections, and
  \<open>add_topics\<close> raises \<open>MinerException\<close> exactly when the topics already held together with
  the ones asked for are more than \<open>MAX_WEBSOCKETS \<times> WS_TOPICS_LIMIT\<close>; when it raises, it
  leaves \<open>MAX_WEBSOCKETS\<close> connections, each of them full.
\<close>

theorem pool_limits:
  assumes "0 < L" and "p = run_pool M L empty_pool calls"
  shows "(\<forall>ws \<in> set (websockets p). length (topics ws) \<le> L)
       \<and> length (pool_topics p) \<le> M * L
       \<and> length (websockets p) \<le> M
       \<and> (fst (add_topics M L ts p) = Some (MinerException ''Maximum topics limit has been reached'')
            \<longleftrightarrow> M * L < card (set (pool_topics p) \<union> set ts))
       \<and> (fst (add_topics M L ts p) = None
            \<longleftrightarrow> card (set (pool_topics p) \<union> set ts) \<le> M * L)
       \<and> (fst (add_topics M L ts p) \<noteq> None \<longrightarrow>
            length (websockets (snd (add_topics M L ts p))) = M
          \<and> (\<forall>ws \<in> set (websockets (snd (add_topics M L ts p))). length (topics ws) = L))"
proof -
  from assms have inv: "pool_inv M L p"
    using run_pool_inv[OF assms(1) pool_inv_empty[OF assms(1)]] by simp
  obtain e p' where r: "add_topics M L ts p = (e, p')" by (cases "add_topics M L ts p")
  from add_topics_correct[OF assms(1) inv r] have A:
    "e = None \<longleftrightarrow> card (set (pool_topics p) \<union> set ts) \<le> M * L"
    "e \<noteq> None \<longrightarrow> e = Some limit_reached \<and> length (websockets p') = M
              \<and> list_all (\<lambda>ws. length (topics ws) = L) (websockets p')"
    by blast+
  from inv have "\<forall>ws \<in> set (websockets p). length (topics ws) \<le> L" and "length (websockets p) \<le> M"
    by (simp_all add: pool_inv_def list_all_iff)
  moreover note pool_inv_total[OF inv]
  moreover from A r have "fst (add_topics M L ts p) = Some (MinerException ''Maximum topics limit has been reached'')
            \<longleftrightarrow> M * L < card (set (pool_topics p) \<union> set ts)"
    by (auto simp: limit_reached_def)
  moreover from A r have "fst (add_topics M L ts p) = None
            \<longleftrightarrow> card (set (pool_topics p) \<union> set ts) \<le> M * L"
    by simp
  moreover from A r have "fst (add_topics M L ts p) \<noteq> None \<longrightarrow>
            length (websockets (snd (add_topics M L ts p))) = M
          \<and> (\<forall>ws \<in> set (websockets (snd (add_topics M L ts p))). length (topics ws) = L)"
    by (simp add: list_all_iff)
  ultimately show ?thesis by blast
qed

theorem pool_limits_witness:
  "0 < (2::nat)
   \<and> length (pool_topics (run_pool 2 2 empty_pool [Add_topics [''a'', ''b'', ''c''], Remove_topics [''a'']])) \<le> 2 * 2
   \<and> length (websockets (run_pool 2 2 empty_pool [Add_topics [''a'', ''b'', ''c''], Remove_topics [''a'']])) \<le> 2
   \<and> 2 * 2 < card (set (pool_topics (run_pool 2 2 empty_pool
                 [Add_topics [''a'', ''b'', ''c''], Remove_topics [''a'']])) \<union> set [''d'', ''e'', ''f''])
   \<and> fst (add_topics 2 2 [''d'', ''e'', ''f''] (run_pool 2 2 empty_pool
                 [Add_topics [''a'', ''b'', ''c''], Remove_topics [''a'']]))
       = Some (MinerException ''Maximum topics limit has been reached'')
   \<and> length (websockets (snd (add_topics 2 2 [''d'', ''e'', ''f''] (run_pool 2 2 empty_pool
                 [Add_topics [''a'', ''b'', ''c''], Remove_topics [''a'']])))) = 2"
proof -
  have h1: "0 < (2::nat)" by simp
  have h2: "2 * 2 < card (set (pool_topics (run_pool 2 2 empty_pool
                 [Add_topics [''a'', ''b'', ''c''], Remove_topics [''a'']])) \<union> set [''d'', ''e'', ''f''])"
    by code_simp
  from pool_limits[OF h1 refl, of 2 "[Add_topics [''a'', ''b'', ''c''], Remove_topics [''a'']]"
      "[''d'', ''e'', ''f'']"] h1 h2
  show ?thesis by (simp del: call_pool.simps run_pool.simps)
qed



text \<open>
  Claim C10. In every pool reached by a sequence of calls, the topic tables of the
  connections are pairwise disjoint and every topic held is held by exactly one connection;
  after a call of \<open>add_topics\<close> that returns, every topic asked for is held by exactly one
  connection.
\<close>

theorem pool_topics_disjoint:
  assumes "0 < L" and "p = run_pool M L empty_pool calls"
  shows "distinct (pool_topics p)
       \<and> (\<forall>i j. i < j \<and> j < length (websockets p) \<longrightarrow>
             set (topics (websockets p ! i)) \<inter> set (topics (websockets p ! j)) = {})
       \<and> (\<forall>t \<in> set (pool_topics p). \<exists>!i. i < length (websockets p) \<and> t \<in> set (topics (websockets p ! i)))
       \<and> (\<forall>p'. add_topics M L ts p = (None, p') \<longrightarrow>
             (\<forall>t \<in> set ts. \<exists>!i. i < length (websockets p') \<and> t \<in> set (topics (websockets p' ! i))))"
proof -
  from assms have inv: "pool_inv M L p"
    using run_pool_inv[OF assms(1) pool_inv_empty[OF assms(1)]] by simp
  then have d: "distinct (concat (map topics (websockets p)))"
    by (simp add: pool_inv_def pool_topics_def)
  have 1: "distinct (pool_topics p)" using d by (simp add: pool_topics_def)
  have 2: "\<forall>i j. i < j \<and> j < length (websockets p) \<longrightarrow>
             set (topics (websockets p ! i)) \<inter> set (topics (websockets p ! j)) = {}"
  proof (intro allI impI)
    fix i j assume ij: "i < j \<and> j < length (websockets p)"
    then have "set (map topics (websockets p) ! i) \<inter> set (map topics (websockets p) ! j) = {}"
      using distinct_concat_nth_disjoint[OF d, of i j] by simp
    with ij show "set (topics (websockets p ! i)) \<inter> set (topics (websockets p ! j)) = {}"
      by simp
  qed
  have uniq: "\<exists>!i. i < length (websockets q) \<and> t \<in> set (topics (websockets q ! i))"
    if "distinct (pool_topics q)" and "t \<in> set (pool_topics q)" for q t
  proof -
    from that have "\<exists>!i. i < length (map topics (websockets q)) \<and> t \<in> set (map topics (websockets q) ! i)"
      by (intro distinct_concat_unique_index) (simp_all add: pool_topics_def)
    then show ?thesis by (auto simp: nth_map cong: conj_cong)
  qed
  have 3: "\<forall>t \<in> set (pool_topics p). \<exists>!i. i < length (websockets p) \<and> t \<in> set (topics (websockets p ! i))"
    using uniq[OF 1] by blast
  have 4: "\<forall>p'. add_topics M L ts p = (None, p') \<longrightarrow>
             (\<forall>t \<in> set ts. \<exists>!i. i < length (websockets p') \<and> t \<in> set (topics (websockets p' ! i)))"
  proof (intro allI impI ballI)
    fix p' t assume r: "add_topics M L ts p = (None, p')" and t: "t \<in> set ts"
    from add_topics_correct[OF assms(1) inv r] have "pool_inv M L p'"
      and "set (pool_topics p') = set (pool_topics p) \<union> set ts"
      by simp_all
    with t have "distinct (pool_topics p')" and "t \<in> set (pool_topics p')"
      by (simp_all add: pool_inv_def)
    then show "\<exists>!i. i < length (websockets p') \<and> t \<in> set (topics (websockets p' ! i))"
      by (rule uniq)
  qed
  from 1 2 3 4 show ?thesis by blast
qed

theorem pool_topics_disjoint_witness:
  "0 < (2::nat)
   \<and> distinct (pool_topics (run_pool 2 2 empty_pool [Add_topics [''a'', ''b'', ''c'']]))
   \<and> add_topics 2 2 [''d''] (run_pool 2 2 empty_pool [Add_topics [''a'', ''b'', ''c'']])
      = (None, \<lparr>websockets = [\<lparr>idx = 0, topics = [''a'', ''b''], topics_changed = True, started = False\<rparr>,
                               \<lparr>idx = 1, topics = [''c'', ''d''], topics_changed = True, started = False\<rparr>],
          running = False, stopped = []\<rparr>)
   \<and> (\<exists>!i. i < length (websockets \<lparr>websockets = [\<lparr>idx = 0, topics = [''a'', ''b''], topics_changed = True, started = False\<rparr>,
                               \<lparr>idx = 1, topics = [''c'', ''d''], topics_changed = True, started = False\<rparr>],
          running = False, stopped = []\<rparr>)
          \<and> ''d'' \<in> set (topics (websockets \<lparr>websockets = [\<lparr>idx = 0, topics = [''a'', ''b''], topics_changed = True, started = False\<rparr>,
                               \<lparr>idx = 1, topics = [''c'', ''d''], topics_changed = True, started = False\<rparr>],
          running = False, stopped = []\<rparr> ! i)))"
proof -
  have h1: "0 < (2::nat)" by simp
  have h3: "add_topics 2 2 [''d''] (run_pool 2 2 empty_pool [Add_topics [''a'', ''b'', ''c'']])
      = (None, \<lparr>websockets = [\<lparr>idx = 0, topics = [''a'', ''b''], topics_changed = True, started = False\<rparr>,
                               \<lparr>idx = 1, topics = [''c'', ''d''], topics_changed = True, started = False\<rparr>],
          running = False, stopped = []\<rparr>)"
    by code_simp
  from pool_topics_disjoint[OF h1 refl, of 2 "[Add_topics [''a'', ''b'', ''c'']]" "[''d'']"] h3
  have "distinct (pool_topics (run_pool 2 2 empty_pool [Add_topics [''a'', ''b'', ''c'']]))"
    and "\<forall>t \<in> set [''d'']. \<exists>!i. i < length (websockets \<lparr>websockets = [\<lparr>idx = 0, topics = [''a'', ''b''], topics_changed = True, started = False\<rparr>,
                               \<lparr>idx = 1, topics = [''c'', ''d''], topics_changed = True, started = False\<rparr>],
          running = False, stopped = []\<rparr>)
          \<and> t \<in> set (topics (websockets \<lparr>websockets = [\<lparr>idx = 0, topics = [''a'', ''b''], topics_changed = True, started = False\<rparr>,
                               \<lparr>idx = 1, topics = [''c'', ''d''], topics_changed = True, started = False\<rparr>],
          running = False, stopped = []\<rparr> ! i))"
    by blast+
  with h1 h3 show ?thesis by (simp del: call_pool.simps run_pool.simps)
qed

section \<open>Priorities and the choice of the channel to watch\<close>

text \<open>
  Modelled from the spec: \<open>Game\<close> (utils.py), \<open>Channel\<close> (channel.py), \<open>DropsCampaign\<close>
  (inventory.py), \<open>AwaitableValue\<close> (utils.py) and the \<open>PRIORITY_ALGORITHM_*\<close> constants
  (constants.py) are not among the sources. Two games are the same when their ids are, so
  \<open>wanted_games\<close> is keyed by the id. A record holds the attributes the code below reads.
  The slot of the watched channel is an awaitable value with \<open>set\<close>, \<open>clear\<close> and
  \<open>get_with_default\<close>; it is the channel it holds, if any. Priorities are Python ints and
  floats, which Python compares by their exact value; they are real numbers here, and times
  are seconds as real numbers.
\<close>

datatype priority_algorithm =
    PRIORITY_ALGORITHM_LIST
  | PRIORITY_ALGORITHM_ADAPTIVE
  | PRIORITY_ALGORITHM_BALANCED
  | PRIORITY_ALGORITHM_ENDING_SOONEST
  | Other_algorithm string

record Game =
  game_id :: int
  game_name :: string

record DropsCampaign =
  campaign_game :: Game
  ends_at :: real
  remaining_minutes :: int

record Channel =
  channel_id :: int
  game :: "Game option"
  viewers :: "int option"
  acl_based :: bool

record Twitch =
  priority_algorithm :: priority_algorithm
  wanted_games :: "int \<rightharpoonup> real"
  watching_channel :: "Channel option"
  inventory :: "DropsCampaign list"

text \<open>
  \<open>Twitch._get_list_priority\<close>:
  \<^verbatim>\<open>
  if not hasattr(channel, 'game') or not channel.game: return 0
  return self.wanted_games.get(channel.game, 0)
  \<close>
\<close>

definition get_list_priority :: "Twitch \<Rightarrow> Channel \<Rightarrow> real" where
  "get_list_priority tw channel =
     (case game channel of
        None \<Rightarrow> 0
      | Some g \<Rightarrow> (case wanted_games tw (game_id g) of None \<Rightarrow> 0 | Some v \<Rightarrow> v))"

text \<open>
  \<open>Twitch._get_adaptive_priority\<close>:
  \<^verbatim>\<open>
  base_priority = self._get_list_priority(channel)
  if hasattr(channel, 'viewers') and channel.viewers:
      base_priority += min(channel.viewers // 1000, 10)
  return base_priority
  \<close>
  A viewer count of \<open>None\<close> or \<open>0\<close> is false in Python.
\<close>

definition get_adaptive_priority :: "Twitch \<Rightarrow> Channel \<Rightarrow> real" where
  "get_adaptive_priority tw channel =
     (let base_priority = get_list_priority tw channel in
      case viewers channel of
        None \<Rightarrow> base_priority
      | Some v \<Rightarrow> if v \<noteq> 0 then base_priority + real_of_int (min (v div 1000) 10)
                  else base_priority)"

definition get_balanced_priority :: "Twitch \<Rightarrow> Channel \<Rightarrow> real" where
  "get_balanced_priority tw channel = get_list_priority tw channel"

definition get_ending_soonest_priority :: "Twitch \<Rightarrow> Channel \<Rightarrow> real" where
  "get_ending_soonest_priority tw channel = get_list_priority tw channel"

text \<open>\<open>Twitch.get_priority\<close>: the \<open>if\<close>/\<open>elif\<close> chain over the algorithm of the settings.\<close>

definition get_priority :: "Twitch \<Rightarrow> Channel \<Rightarrow> real" where
  "get_priority tw channel =
     (let algorithm = priority_algorithm tw in
      if algorithm = PRIORITY_ALGORITHM_LIST then get_list_priority tw channel
      else if algorithm = PRIORITY_ALGORITHM_ADAPTIVE then get_adaptive_priority tw channel
      else if algorithm = PRIORITY_ALGORITHM_BALANCED then get_balanced_priority tw channel
      else if algorithm = PRIORITY_ALGORITHM_ENDING_SOONEST then get_ending_soonest_priority tw channel
      else get_list_priority tw channel)"

text \<open>
  \<open>should_switch\<close> (the same text in \<open>StreamsManager\<close> and in \<open>Twitch\<close>):
  \<^verbatim>\<open>
  watching_channel = self.watching_channel.get_with_default(None)
  if watching_channel is None: return True
  channel_order = self.get_priority(channel)
  watching_order = self.get_priority(watching_channel)
  return (channel_order > watching_order
          or channel_order == watching_order
          and channel.acl_based > watching_channel.acl_based)
  \<close>
  \<open>and\<close> binds tighter than \<open>or\<close>; the last comparison is one of two \<open>bool\<close>s, with
  \<open>False < True\<close> in Python as in HOL.
\<close>

definition should_switch :: "Twitch \<Rightarrow> Channel \<Rightarrow> bool" where
  "should_switch tw channel =
     (case watching_channel tw of
        None \<Rightarrow> True
      | Some watching \<Rightarrow>
          (let channel_order = get_priority tw channel;
               watching_order = get_priority tw watching
           in channel_order > watching_order
              \<or> (channel_order = watching_order \<and> acl_based channel > acl_based watching)))"



section \<open>The scores of the priority algorithms\<close>

text \<open>
  Python floats are real numbers here: a score is read as the value of its formula, without
  rounding. \<open>-float('inf')\<close> is a value of its own. \<open>sys.maxsize\<close> is \<open>2\<^sup>6\<^sup>3 - 1\<close> on a 64-bit
  build. The clock (\<open>datetime.now(timezone.utc)\<close>) is the parameter \<open>current_time\<close>.
\<close>

datatype float_result = Minus_infinity | Finite real

definition sys_maxsize :: int where
  "sys_maxsize = 2 ^ 63 - 1"

text \<open>
  \<open>Calculate_Balanced_Priority\<close> (priority_algorithms.py):
  \<^verbatim>\<open>
  time_remaining_hours = (campaign.ends_at - current_time).total_seconds() / 3600
  if time_remaining_hours <= 0: return -sys.maxsize
  max_urgency_window = 72
  time_urgency_score = max(0, 100 * (1 - (time_remaining_hours / max_urgency_window)))
  time_urgency_score = min(100, time_urgency_score)
  inverted_priority = priority_list_length - user_priority + 1
  priority_score = (inverted_priority / priority_list_length) * 100
  priority_weight = 0.60; time_weight = 0.40
  blended_score = (priority_weight * priority_score) + (time_weight * time_urgency_score)
  final_score = (blended_score / 100) * inverted_priority + (blended_score * 0.1)
  return final_score
  \<close>
  The division by \<open>priority_list_length\<close> raises \<open>ZeroDivisionError\<close> for an empty list.
\<close>

definition Calculate_Balanced_Priority :: "DropsCampaign \<Rightarrow> real \<Rightarrow> int \<Rightarrow> int \<Rightarrow> error + real" where
  "Calculate_Balanced_Priority campaign current_time user_priority priority_list_length =
     (let time_remaining_hours = (ends_at campaign - current_time) / 3600 in
      if time_remaining_hours \<le> 0 then Inr (- real_of_int sys_maxsize)
      else
        let max_urgency_window = 72;
            time_urgency_score = max 0 (100 * (1 - time_remaining_hours / max_urgency_window));
            time_urgency_score = min 100 time_urgency_score;
            inverted_priority = priority_list_length - user_priority + 1
        in if priority_list_length = 0 then Inl ZeroDivisionError
           else
             let priority_score =
                   (real_of_int inverted_priority / real_of_int priority_list_length) * 100;
                 priority_weight = 0.60;
                 time_weight = 0.40;
                 blended_score = priority_weight * priority_score + time_weight * time_urgency_score;
                 final_score = (blended_score / 100) * real_of_int inverted_priority
                               + blended_score * 0.1
             in Inr final_score)"

text \<open>
  \<open>Calculate_Adaptive_Priority\<close> (priority_algorithms.py):
  \<^verbatim>\<open>
  time_remaining_hours = (campaign.ends_at - current_time).total_seconds() / 3600
  if time_remaining_hours <= 0: return -sys.maxsize
  minutes_needed = campaign.remaining_minutes
  hours_needed = minutes_needed / 60
  buffer_factor = 1.2
  time_risk = max(0, 1 - (time_remaining_hours / (hours_needed * buffer_factor))) \
      if hours_needed > 0 else 0
  inverted_priority = priority_list_length - user_priority + 1
  priority_boost = inverted_priority * time_risk * 10
  final_score = inverted_priority + priority_boost
  return final_score
  \<close>
\<close>

definition Calculate_Adaptive_Priority :: "DropsCampaign \<Rightarrow> real \<Rightarrow> int \<Rightarrow> int \<Rightarrow> real" where
  "Calculate_Adaptive_Priority campaign current_time user_priority priority_list_length =
     (let time_remaining_hours = (ends_at campaign - current_time) / 3600 in
      if time_remaining_hours \<le> 0 then - real_of_int sys_maxsize
      else
        let minutes_needed = remaining_minutes campaign;
            hours_needed = real_of_int minutes_needed / 60;
            buffer_factor = 1.2;
            time_risk = (if hours_needed > 0
                         then max 0 (1 - time_remaining_hours / (hours_needed * buffer_factor))
                         else 0);
            inverted_priority = priority_list_length - user_priority + 1;
            priority_boost = real_of_int inverted_priority * time_risk * 10;
            final_score = real_of_int inverted_priority + priority_boost
        in final_score)"

text \<open>
  \<open>DropsManager._calculate_weighted_priority\<close> (drops.py): the same steps, but for
  \<^verbatim>\<open>
  if time_remaining_hours <= 0: return -float('inf')
  ...
  max_expected_priority = max(10, user_priority)
  priority_score = (user_priority / max_expected_priority) * 100
  ...
  final_score = (blended_score / 100) * user_priority + (blended_score * 0.1)
  \<close>
\<close>

definition DropsManager_calculate_weighted_priority :: "DropsCampaign \<Rightarrow> real \<Rightarrow> int \<Rightarrow> float_result" where
  "DropsManager_calculate_weighted_priority campaign current_time user_priority =
     (let time_remaining_hours = (ends_at campaign - current_time) / 3600 in
      if time_remaining_hours \<le> 0 then Minus_infinity
      else
        let max_urgency_window = 72;
            time_urgency_score = max 0 (100 * (1 - time_remaining_hours / max_urgency_window));
            time_urgency_score = min 100 time_urgency_score;
            max_expected_priority = max 10 user_priority;
            priority_score = (real_of_int user_priority / real_of_int max_expected_priority) * 100;
            priority_weight = 0.60;
            time_weight = 0.40;
            blended_score = priority_weight * priority_score + time_weight * time_urgency_score;
            final_score = (blended_score / 100) * real_of_int user_priority + blended_score * 0.1
        in Finite final_score)"

text \<open>
  \<open>DropsManager._calculate_smart_priority\<close> (drops.py): as \<open>Calculate_Adaptive_Priority\<close>,
  with \<open>-float('inf')\<close> for a campaign that has ended and \<open>user_priority\<close> in the place of
  \<open>inverted_priority\<close>.
\<close>

definition DropsManager_calculate_smart_priority :: "DropsCampaign \<Rightarrow> real \<Rightarrow> int \<Rightarrow> float_result" where
  "DropsManager_calculate_smart_priority campaign current_time user_priority =
     (let time_remaining_hours = (ends_at campaign - current_time) / 3600 in
      if time_remaining_hours \<le> 0 then Minus_infinity
      else
        let minutes_needed = remaining_minutes campaign;
            hours_needed = real_of_int minutes_needed / 60;
            buffer_factor = 1.2;
            time_risk = (if hours_needed > 0
                         then max 0 (1 - time_remaining_hours / (hours_needed * buffer_factor))
                         else 0);
            priority_boost = real_of_int user_priority * time_risk * 10;
            final_score = real_of_int user_priority + priority_boost
        in Finite final_score)"

text \<open>
  \<open>Twitch._calculate_weighted_priority\<close> and \<open>Twitch._calculate_smart_priority\<close> (client.py),
  the ones the state machine calls in \<open>GAMES_UPDATE\<close>: \<^verbatim>\<open>return float(user_priority)\<close>.
\<close>

definition Twitch_calculate_weighted_priority :: "DropsCampaign \<Rightarrow> int \<Rightarrow> real" where
  "Twitch_calculate_weighted_priority campaign user_priority = real_of_int user_priority"

definition Twitch_calculate_smart_priority :: "DropsCampaign \<Rightarrow> int \<Rightarrow> real" where
  "Twitch_calculate_smart_priority campaign user_priority = real_of_int user_priority"

text \<open>
  The key of the BALANCED algorithm as the spec's table writes it, for \<open>H\<close> hours left, the
  index \<open>user_index\<close> in a priority list of length \<open>L\<close>; and its two halves: the time
  urgency \<open>U\<close>, and the blend of a priority score \<open>P\<close> and \<open>U\<close> scaled by \<open>invP\<close>.
\<close>

definition urgency :: "real \<Rightarrow> real" where
  "urgency H = min 100 (max 0 (100 * (1 - H / 72)))"

definition blend_key :: "real \<Rightarrow> real \<Rightarrow> real \<Rightarrow> real" where
  "blend_key P U invP = (0.60 * P + 0.40 * U) / 100 * invP + 0.1 * (0.60 * P + 0.40 * U)"

definition balanced_key_spec :: "real \<Rightarrow> int \<Rightarrow> int \<Rightarrow> real" where
  "balanced_key_spec H user_index L =
     (let invP = real_of_int (L - user_index + 1);
          U = min 100 (max 0 (100 * (1 - H / 72)));
          P = (invP / real_of_int L) * 100;
          blend = 0.60 * P + 0.40 * U
      in blend / 100 * invP + 0.1 * blend)"

subsection \<open>The BALANCED key\<close>

lemma balanced_key_spec_blend:
  "balanced_key_spec H ui L =
     blend_key (real_of_int (L - ui + 1) / real_of_int L * 100) (urgency H) (real_of_int (L - ui + 1))"
  by (simp only: balanced_key_spec_def blend_key_def urgency_def Let_def)




subsection \<open>Campaigns that have ended\<close>

lemma sys_maxsize_pos: "0 < real_of_int sys_maxsize"
  by (simp add: sys_maxsize_def)

lemma urgency_nonneg: "0 \<le> min (100::real) (max 0 x)"
  by simp

lemma blend_positive: "0 < (P::real) \<Longrightarrow> 0 \<le> U \<Longrightarrow> 0 < 0.60 * P + 0.40 * U"
  by (rule add_pos_nonneg) simp_all

lemma final_positive: "0 < (B::real) \<Longrightarrow> 1 \<le> i \<Longrightarrow> 0 < B / 100 * i + B * 0.1"
  by (rule add_pos_pos) simp_all

lemma score_positive: "0 < (i::real) \<Longrightarrow> 0 < l \<Longrightarrow> 0 < i / l * 100"
  by simp

lemma balanced_live_positive:
  assumes live: "now < ends_at c" and up: "1 \<le> up" "up \<le> L"
  shows "\<exists>s. Calculate_Balanced_Priority c now up L = Inr s \<and> 0 < s"
proof -
  let ?H = "(ends_at c - now) / 3600"
  let ?U = "min 100 (max 0 (100 * (1 - ?H / 72)))"
  let ?inv = "real_of_int (L - up + 1)"
  let ?P = "?inv / real_of_int L * 100"
  let ?B = "0.60 * ?P + 0.40 * ?U"
  from live have H: "(?H \<le> 0) = False" by simp
  from up have L: "(L = 0) = False" by simp
  have eq: "Calculate_Balanced_Priority c now up L = Inr (?B / 100 * ?inv + ?B * 0.1)"
    by (simp only: Calculate_Balanced_Priority_def Let_def H L if_False)
  from up have i1: "1 \<le> ?inv" and i0: "0 < ?inv" and Lp: "0 < real_of_int L" by simp_all
  from i0 Lp have P: "0 < ?P" by (rule score_positive)
  have U: "0 \<le> ?U" by (rule urgency_nonneg)
  from P U have B: "0 < ?B" by (rule blend_positive)
  from B i1 have "0 < ?B / 100 * ?inv + ?B * 0.1" by (rule final_positive)
  with eq show ?thesis by blast
qed

lemma adaptive_live_positive:
  assumes live: "now < ends_at c" and up: "1 \<le> up" "up \<le> L"
  shows "0 < Calculate_Adaptive_Priority c now up L"
proof -
  let ?H = "(ends_at c - now) / 3600"
  let ?hn = "real_of_int (remaining_minutes c) / 60"
  let ?risk = "if ?hn > 0 then max 0 (1 - ?H / (?hn * 1.2)) else 0"
  let ?inv = "real_of_int (L - up + 1)"
  from live have H: "(?H \<le> 0) = False" by simp
  have eq: "Calculate_Adaptive_Priority c now up L = ?inv + ?inv * ?risk * 10"
    by (simp only: Calculate_Adaptive_Priority_def Let_def H if_False)
  from up have i1: "1 \<le> ?inv" by simp
  have risk: "0 \<le> ?risk" by simp
  from i1 risk have "0 \<le> ?inv * ?risk * 10" by simp
  with i1 have "0 < ?inv + ?inv * ?risk * 10" by linarith
  with eq show ?thesis by simp
qed




section \<open>GraphQL requests\<close>

text \<open>
  An entry of the \<open>errors\<close> list of a GraphQL response is a JSON object whose \<open>message\<close>,
  when it has one, is a string; \<open>rest\<close> stands for its other members. A response is a JSON
  object that may have an \<open>errors\<close> member; \<open>body\<close> stands for its other members. What the
  server sends back for one POST is one response or a list of them.
\<close>

record error_dict =
  message :: "string option"
  rest :: JsonType

record response_json =
  errors :: "error_dict list option"
  body :: JsonType

datatype gql_response = Single response_json | Batch "response_json list"

text \<open>
  The exceptions of \<open>gql_request\<close>: \<open>MinerException(f"GQL error: {errors}{additional}")\<close>
  carries the error list of the response and, when \<open>additional_message\<close> was set, the hint
  about \<open>PersistedQueryNotFound\<close>; \<open>MinerException()\<close> ends the function when the backoff
  has no delay left.
\<close>

datatype gql_exception = GQL_error "error_dict list" bool | MinerException_empty

text \<open>\<open>x in s\<close> for two Python strings: \<open>x\<close> occurs in \<open>s\<close> as a substring.\<close>

definition str_in :: "string \<Rightarrow> string \<Rightarrow> bool" where
  "str_in x s = list_ex (\<lambda>i. take (length x) (drop i s) = x) [0 ..< Suc (length s)]"

definition retry_messages :: "string list" where
  "retry_messages = [''service unavailable'', ''service timeout'', ''context deadline exceeded'']"

text \<open>
  The inner loop of \<open>gql_request\<close> over the errors of one response:
  \<^verbatim>\<open>
  additional_message = ""
  for error_dict in response_json["errors"]:
      if "message" in error_dict:
          if error_dict["message"] in ("service unavailable", "service timeout",
                                       "context deadline exceeded"):
              force_retry = True
              break
          elif error_dict["message"] in "PersistedQueryNotFound":
              additional_message = "..."
  else:
      raise MinerException(f"GQL error: {response_json['errors']}{additional_message ...}")
  \<close>
  \<open>scan_errors\<close> is the loop from one entry on, with \<open>additional\<close> telling whether the hint
  has been set; \<open>None\<close> is the \<open>break\<close>, \<open>Some additional\<close> the \<open>else\<close> of the \<open>for\<close>.
\<close>

fun scan_errors :: "error_dict list \<Rightarrow> bool \<Rightarrow> bool option" where
  "scan_errors [] additional = Some additional"
| "scan_errors (e # es) additional =
     (case message e of
        None \<Rightarrow> scan_errors es additional
      | Some m \<Rightarrow>
          if m \<in> set retry_messages then None
          else if str_in m ''PersistedQueryNotFound'' then scan_errors es True
          else scan_errors es additional)"

text \<open>
  The outer loop over the responses of the batch:
  \<^verbatim>\<open>
  force_retry = False
  for response_json in response_list:
      if "errors" in response_json:
          ... the inner loop ...
      if force_retry: break
  else:
      return orig_response
  await asyncio.sleep(delay)
  \<close>
\<close>

datatype verdict = Return_response | Force_retry | Raise gql_exception

fun check_responses :: "response_json list \<Rightarrow> verdict" where
  "check_responses [] = Return_response"
| "check_responses (r # rs) =
     (case errors r of
        None \<Rightarrow> check_responses rs
      | Some es \<Rightarrow>
          (case scan_errors es False of
             None \<Rightarrow> Force_retry
           | Some additional \<Rightarrow> Raise (GQL_error es additional)))"

text \<open>
  \<^verbatim>\<open>
  if isinstance(response_json, list): response_list = response_json
  else: response_list = [response_json]
  \<close>
\<close>

fun response_list :: "gql_response \<Rightarrow> response_json list" where
  "response_list (Single r) = [r]"
| "response_list (Batch rs) = rs"

text \<open>
  \<open>Twitch.gql_request\<close>: one element of the list for every delay the backoff yields, saying
  what the POST of that round brought: \<open>RequestInvalid\<close> (the loop goes on) or a decoded
  response.
\<close>

datatype attempt = RequestInvalid | Response gql_response

fun gql_request :: "attempt list \<Rightarrow> gql_exception + gql_response" where
  "gql_request [] = Inl MinerException_empty"
| "gql_request (RequestInvalid # later) = gql_request later"
| "gql_request (Response orig_response # later) =
     (case check_responses (response_list orig_response) of
        Return_response \<Rightarrow> Inr orig_response
      | Force_retry \<Rightarrow> gql_request later
      | Raise e \<Rightarrow> Inl e)"

definition retryable :: "error_dict \<Rightarrow> bool" where
  "retryable e \<longleftrightarrow> (case message e of None \<Rightarrow> False | Some m \<Rightarrow> m \<in> set retry_messages)"

lemma scan_errors_None_iff:
  "scan_errors es additional = None \<longleftrightarrow> (\<exists>e \<in> set es. retryable e)"
  by (induction es arbitrary: additional) (auto simp: retryable_def split: option.splits)

lemma check_responses_first:
  assumes "\<forall>q \<in> set pre. errors q = None" and "errors r = Some es"
  shows "check_responses (pre @ r # post) =
           (case scan_errors es False of None \<Rightarrow> Force_retry
            | Some additional \<Rightarrow> Raise (GQL_error es additional))"
  using assms by (induction pre) simp_all

lemma check_responses_clean:
  "(\<forall>q \<in> set rs. errors q = None) \<Longrightarrow> check_responses rs = Return_response"
  by (induction rs) simp_all

text \<open>
  Claim C4, as amended. The first response of the batch (in the order of the list) that has
  an \<open>errors\<close> entry decides: when some error of that entry has the message
  \<open>service unavailable\<close>, \<open>service timeout\<close> or \<open>context deadline exceeded\<close>,
  \<open>gql_request\<close> retries the whole batch; otherwise it raises \<open>MinerException\<close> carrying
  the error list of that response. A batch in which no response has an \<open>errors\<close> entry is
  returned to the caller unchanged.
\<close>

theorem gql_first_errors_decide:
  "((\<forall>q \<in> set (response_list orig). errors q = None) \<longrightarrow>
       check_responses (response_list orig) = Return_response
     \<and> gql_request (Response orig # later) = Inr orig)
   \<and> (response_list orig = pre @ r # post \<and> (\<forall>q \<in> set pre. errors q = None) \<and> errors r = Some es \<longrightarrow>
        ((\<exists>e \<in> set es. retryable e) \<longrightarrow>
            check_responses (response_list orig) = Force_retry
          \<and> gql_request (Response orig # later) = gql_request later)
      \<and> (\<not> (\<exists>e \<in> set es. retryable e) \<longrightarrow>
            (\<exists>additional. check_responses (response_list orig) = Raise (GQL_error es additional)
                \<and> gql_request (Response orig # later) = Inl (GQL_error es additional))))"
proof (intro conjI impI)
  assume c: "\<forall>q \<in> set (response_list orig). errors q = None"
  then show "check_responses (response_list orig) = Return_response"
    by (rule check_responses_clean)
  then show "gql_request (Response orig # later) = Inr orig" by simp
next
  assume a: "response_list orig = pre @ r # post \<and> (\<forall>q \<in> set pre. errors q = None) \<and> errors r = Some es"
  then have first: "check_responses (response_list orig) =
           (case scan_errors es False of None \<Rightarrow> Force_retry
            | Some additional \<Rightarrow> Raise (GQL_error es additional))"
    using check_responses_first[of pre r es post] by simp
  { assume "\<exists>e \<in> set es. retryable e"
    then have "scan_errors es False = None" by (simp add: scan_errors_None_iff)
    with first show "check_responses (response_list orig) = Force_retry" by simp
    then show "gql_request (Response orig # later) = gql_request later" by simp }
  { assume "\<not> (\<exists>e \<in> set es. retryable e)"
    then have "scan_errors es False \<noteq> None" by (simp add: scan_errors_None_iff)
    then obtain additional where "scan_errors es False = Some additional" by auto
    with first have "check_responses (response_list orig) = Raise (GQL_error es additional)" by simp
    then show "\<exists>additional. check_responses (response_list orig) = Raise (GQL_error es additional)
                \<and> gql_request (Response orig # later) = Inl (GQL_error es additional)"
      by (intro exI[of _ additional]) simp }
qed

theorem gql_first_errors_decide_witness:
  "response_list (Batch [\<lparr>errors = None, body = fmempty\<rparr>,
        \<lparr>errors = Some [\<lparr>message = Some ''service timeout'', rest = fmempty\<rparr>], body = fmempty\<rparr>])
     = [\<lparr>errors = None, body = fmempty\<rparr>]
       @ \<lparr>errors = Some [\<lparr>message = Some ''service timeout'', rest = fmempty\<rparr>], body = fmempty\<rparr> # []
   \<and> retryable \<lparr>message = Some ''service timeout'', rest = fmempty\<rparr>
   \<and> gql_request [Response (Batch [\<lparr>errors = None, body = fmempty\<rparr>,
        \<lparr>errors = Some [\<lparr>message = Some ''service timeout'', rest = fmempty\<rparr>], body = fmempty\<rparr>]),
        Response (Single \<lparr>errors = None, body = fmempty\<rparr>)]
     = Inr (Single \<lparr>errors = None, body = fmempty\<rparr>)
   \<and> \<not> retryable \<lparr>message = Some ''server error'', rest = fmempty\<rparr>
   \<and> gql_request [Response (Single \<lparr>errors = Some [\<lparr>message = Some ''server error'', rest = fmempty\<rparr>], body = fmempty\<rparr>),
        Response (Single \<lparr>errors = None, body = fmempty\<rparr>)]
     = Inl (GQL_error [\<lparr>message = Some ''server error'', rest = fmempty\<rparr>] False)"
proof -
  let ?ok = "\<lparr>errors = None, body = fmempty\<rparr>"
  let ?et = "\<lparr>message = Some ''service timeout'', rest = fmempty\<rparr>"
  let ?eo = "\<lparr>message = Some ''server error'', rest = fmempty\<rparr>"
  let ?rt = "\<lparr>errors = Some [?et], body = fmempty\<rparr>"
  let ?ro = "\<lparr>errors = Some [?eo], body = fmempty\<rparr>"
  have rt: "retryable ?et" by (simp add: retryable_def retry_messages_def)
  have ro: "\<not> retryable ?eo" by (simp add: retryable_def retry_messages_def)
  have l1: "response_list (Batch [?ok, ?rt]) = [?ok] @ ?rt # []" by simp
  have l2: "response_list (Single ?ro) = [] @ ?ro # []" by simp
  have clean: "\<forall>q \<in> set (response_list (Single ?ok)). errors q = None" by simp
  from gql_first_errors_decide[of "Single ?ok" "[]" "[]" ?ok "[]" "[]"] clean
  have fin: "gql_request [Response (Single ?ok)] = Inr (Single ?ok)" by blast
  from gql_first_errors_decide[of "Batch [?ok, ?rt]" "[Response (Single ?ok)]" "[?ok]" ?rt "[]" "[?et]"] l1 rt
  have a: "gql_request [Response (Batch [?ok, ?rt]), Response (Single ?ok)] = gql_request [Response (Single ?ok)]"
    by simp
  from gql_first_errors_decide[of "Single ?ro" "[Response (Single ?ok)]" "[]" ?ro "[]" "[?eo]"] l2 ro
  obtain additional where b: "gql_request [Response (Single ?ro), Response (Single ?ok)] = Inl (GQL_error [?eo] additional)"
    by auto
  have "scan_errors [?eo] False = Some False" by code_simp
  then have b': "gql_request [Response (Single ?ro), Response (Single ?ok)] = Inl (GQL_error [?eo] False)"
    by simp
  from l1 rt ro a fin b' show ?thesis by simp
qed

text \<open>
  The claim as it was stated (a retry whenever some error of the batch has one of the three
  messages) fails on a batch of two responses, the first with the error \<open>server error\<close>,
  the second with \<open>service timeout\<close>: the first response raises before the second is read.
\<close>

theorem gql_batch_counterexample:
  "retryable \<lparr>message = Some ''service timeout'', rest = fmempty\<rparr>
   \<and> check_responses
        [\<lparr>errors = Some [\<lparr>message = Some ''server error'', rest = fmempty\<rparr>], body = fmempty\<rparr>,
         \<lparr>errors = Some [\<lparr>message = Some ''service timeout'', rest = fmempty\<rparr>], body = fmempty\<rparr>]
      = Raise (GQL_error [\<lparr>message = Some ''server error'', rest = fmempty\<rparr>] False)
   \<and> gql_request
        [Response (Batch
           [\<lparr>errors = Some [\<lparr>message = Some ''server error'', rest = fmempty\<rparr>], body = fmempty\<rparr>,
            \<lparr>errors = Some [\<lparr>message = Some ''service timeout'', rest = fmempty\<rparr>], body = fmempty\<rparr>]),
         Response (Single \<lparr>errors = None, body = fmempty\<rparr>)]
      = Inl (GQL_error [\<lparr>message = Some ''server error'', rest = fmempty\<rparr>] False)"
proof -
  have "scan_errors [\<lparr>message = Some ''server error'', rest = fmempty\<rparr>] False = Some False"
    by code_simp
  then show ?thesis by (simp add: retryable_def retry_messages_def)
qed

section \<open>The settings store and its migration\<close>

text \<open>
  \<open>self._settings\<close> is the JSON object that \<open>json_load\<close> returns, \<open>os.environ\<close> a map from
  names to strings. The constants \<open>PRIORITY_ALGORITHM_LIST\<close> and
  \<open>PRIORITY_ALGORITHM_ENDING_SOONEST\<close> are strings of constants.py, which is not among the
  sources; they are the parameters \<open>LIST\<close> and \<open>ENDING_SOONEST\<close>.
\<close>

record Settings =
  settings :: JsonType
  altered :: bool

text \<open>What Python takes for true in an \<open>if\<close>.\<close>

fun truthy :: "json \<Rightarrow> bool" where
  "truthy JNull = False"
| "truthy (JBool b) = b"
| "truthy (JInt i) = (i \<noteq> 0)"
| "truthy (JFloat x) = (x \<noteq> 0)"
| "truthy (JStr s) = (s \<noteq> [])"
| "truthy (JList xs) = (xs \<noteq> [])"
| "truthy (JDict d) = (d \<noteq> fmempty)"

text \<open>
  \<open>Settings.__get_settings_from_env__\<close>:
  \<^verbatim>\<open>
  if os.environ.get("prioritize_by_ending_soonest") == "1":
      self._settings["priority_algorithm"] = PRIORITY_ALGORITHM_ENDING_SOONEST
  if os.environ.get("UNLINKED_CAMPAIGNS") == "1":
      self._settings["unlinked_campaigns"] = True
  if ("priority_algorithm" not in self._settings):
      if ("prioritize_by_ending_soonest" in self._settings):
          if self._settings["prioritize_by_ending_soonest"]:
              self._settings["priority_algorithm"] = PRIORITY_ALGORITHM_ENDING_SOONEST
          del self._settings["prioritize_by_ending_soonest"]
          self._altered = True
      else:
          self._settings["priority_algorithm"] = PRIORITY_ALGORITHM_LIST
  \<close>
\<close>

definition get_settings_from_env ::
    "string \<Rightarrow> string \<Rightarrow> (string \<rightharpoonup> string) \<Rightarrow> Settings \<Rightarrow> Settings" where
  "get_settings_from_env LIST ENDING_SOONEST environ self =
     (let s1 = (if environ ''prioritize_by_ending_soonest'' = Some ''1''
                then fmupd ''priority_algorithm'' (JStr ENDING_SOONEST) (settings self)
                else settings self);
          s2 = (if environ ''UNLINKED_CAMPAIGNS'' = Some ''1''
                then fmupd ''unlinked_campaigns'' (JBool True) s1
                else s1)
      in if ''priority_algorithm'' |\<notin>| fmdom s2 then
           (case fmlookup s2 ''prioritize_by_ending_soonest'' of
              Some legacy \<Rightarrow>
                (let s3 = (if truthy legacy
                           then fmupd ''priority_algorithm'' (JStr ENDING_SOONEST) s2
                           else s2)
                 in self\<lparr>settings := fmdrop ''prioritize_by_ending_soonest'' s3, altered := True\<rparr>)
            | None \<Rightarrow> self\<lparr>settings := fmupd ''priority_algorithm'' (JStr LIST) s2\<rparr>)
         else self\<lparr>settings := s2\<rparr>)"

text \<open>
  \<open>Settings.__init__\<close>: the loaded map goes through the migration, then \<open>_altered\<close> is set
  to \<open>False\<close>.
\<close>

definition Settings_init :: "string \<Rightarrow> string \<Rightarrow> (string \<rightharpoonup> string) \<Rightarrow> JsonType \<Rightarrow> Settings" where
  "Settings_init LIST ENDING_SOONEST environ loaded =
     (get_settings_from_env LIST ENDING_SOONEST environ \<lparr>settings = loaded, altered = False\<rparr>)
       \<lparr>altered := False\<rparr>"

lemma fmupd_same: "fmlookup m k = Some v \<Longrightarrow> fmupd k v m = m"
  by (rule fmap_ext) auto

text \<open>
  Claim C8, as amended. On settings load, when \<open>priority_algorithm\<close> is absent from the
  settings, the environment does not force the algorithm, and the legacy key
  \<open>prioritize_by_ending_soonest\<close> is present, the migration deletes the legacy key and, when
  the legacy value is true, sets \<open>priority_algorithm\<close> to \<open>ENDING_SOONEST\<close>. When
  \<open>priority_algorithm\<close> is present, in the file or because the environment variable has just
  set it to \<open>ENDING_SOONEST\<close>, the legacy key is left as it is. Applying the migration a
  second time leaves the settings unchanged whenever \<open>priority_algorithm\<close> is present after
  the first application.
\<close>

theorem migration_guarded:
  "(environ ''prioritize_by_ending_soonest'' \<noteq> Some ''1''
      \<and> ''priority_algorithm'' |\<notin>| fmdom (settings self)
      \<and> fmlookup (settings self) ''prioritize_by_ending_soonest'' = Some legacy \<longrightarrow>
        ''prioritize_by_ending_soonest'' |\<notin>| fmdom (settings (get_settings_from_env LIST ES environ self))
      \<and> (truthy legacy \<longrightarrow>
            fmlookup (settings (get_settings_from_env LIST ES environ self)) ''priority_algorithm''
              = Some (JStr ES)))
   \<and> (''priority_algorithm'' |\<in>| fmdom (settings self) \<longrightarrow>
        fmlookup (settings (get_settings_from_env LIST ES environ self)) ''prioritize_by_ending_soonest''
          = fmlookup (settings self) ''prioritize_by_ending_soonest''
      \<and> (environ ''prioritize_by_ending_soonest'' \<noteq> Some ''1'' \<longrightarrow>
            fmlookup (settings (get_settings_from_env LIST ES environ self)) ''priority_algorithm''
              = fmlookup (settings self) ''priority_algorithm''))
   \<and> (environ ''prioritize_by_ending_soonest'' = Some ''1'' \<longrightarrow>
        fmlookup (settings (get_settings_from_env LIST ES environ self)) ''priority_algorithm''
          = Some (JStr ES)
      \<and> fmlookup (settings (get_settings_from_env LIST ES environ self)) ''prioritize_by_ending_soonest''
          = fmlookup (settings self) ''prioritize_by_ending_soonest'')
   \<and> (''priority_algorithm'' |\<in>| fmdom (settings (get_settings_from_env LIST ES environ self)) \<longrightarrow>
        settings (get_settings_from_env LIST ES environ (get_settings_from_env LIST ES environ self))
          = settings (get_settings_from_env LIST ES environ self))"
proof (intro conjI impI)
  assume a: "environ ''prioritize_by_ending_soonest'' \<noteq> Some ''1''
      \<and> ''priority_algorithm'' |\<notin>| fmdom (settings self)
      \<and> fmlookup (settings self) ''prioritize_by_ending_soonest'' = Some legacy"
  then show "''prioritize_by_ending_soonest'' |\<notin>| fmdom (settings (get_settings_from_env LIST ES environ self))"
    by (simp add: get_settings_from_env_def Let_def)
  show "fmlookup (settings (get_settings_from_env LIST ES environ self)) ''priority_algorithm'' = Some (JStr ES)"
    if "truthy legacy"
    using a that by (simp add: get_settings_from_env_def Let_def)
next
  assume a: "''priority_algorithm'' |\<in>| fmdom (settings self)"
  then show "fmlookup (settings (get_settings_from_env LIST ES environ self)) ''prioritize_by_ending_soonest''
          = fmlookup (settings self) ''prioritize_by_ending_soonest''"
    by (simp add: get_settings_from_env_def Let_def)
  show "fmlookup (settings (get_settings_from_env LIST ES environ self)) ''priority_algorithm''
              = fmlookup (settings self) ''priority_algorithm''"
    if "environ ''prioritize_by_ending_soonest'' \<noteq> Some ''1''"
    using a that by (simp add: get_settings_from_env_def Let_def)
next
  assume a: "environ ''prioritize_by_ending_soonest'' = Some ''1''"
  then show "fmlookup (settings (get_settings_from_env LIST ES environ self)) ''priority_algorithm''
          = Some (JStr ES)"
    by (simp add: get_settings_from_env_def Let_def)
  from a show "fmlookup (settings (get_settings_from_env LIST ES environ self)) ''prioritize_by_ending_soonest''
          = fmlookup (settings self) ''prioritize_by_ending_soonest''"
    by (simp add: get_settings_from_env_def Let_def)
next
  let ?f = "get_settings_from_env LIST ES environ"
  assume p: "''priority_algorithm'' |\<in>| fmdom (settings (?f self))"
  let ?s = "settings (?f self)"
  have e1: "fmupd ''priority_algorithm'' (JStr ES) ?s = ?s"
    if "environ ''prioritize_by_ending_soonest'' = Some ''1''"
  proof (rule fmupd_same)
    from that show "fmlookup ?s ''priority_algorithm'' = Some (JStr ES)"
      by (simp add: get_settings_from_env_def Let_def)
  qed
  have e2: "fmupd ''unlinked_campaigns'' (JBool True) ?s = ?s"
    if "environ ''UNLINKED_CAMPAIGNS'' = Some ''1''"
  proof (rule fmupd_same)
    from that show "fmlookup ?s ''unlinked_campaigns'' = Some (JBool True)"
      by (auto simp: get_settings_from_env_def Let_def split: option.splits)
  qed
  have "settings (?f (?f self)) =
     (let s1 = (if environ ''prioritize_by_ending_soonest'' = Some ''1''
                then fmupd ''priority_algorithm'' (JStr ES) ?s else ?s);
          s2 = (if environ ''UNLINKED_CAMPAIGNS'' = Some ''1''
                then fmupd ''unlinked_campaigns'' (JBool True) s1 else s1)
      in s2)"
    using p by (simp add: get_settings_from_env_def[of LIST ES environ "?f self"] Let_def)
  also have "\<dots> = ?s" using e1 e2 by (simp add: Let_def)
  finally show "settings (?f (?f self)) = ?s" .
qed

theorem migration_guarded_witness:
  "Map.empty ''prioritize_by_ending_soonest'' \<noteq> Some ''1''
   \<and> ''priority_algorithm'' |\<notin>| fmdom (fmupd ''prioritize_by_ending_soonest'' (JBool True) fmempty)
   \<and> truthy (JBool True)
   \<and> ''prioritize_by_ending_soonest'' |\<notin>| fmdom (settings (get_settings_from_env ''list'' ''ending_soonest'' Map.empty
          \<lparr>settings = fmupd ''prioritize_by_ending_soonest'' (JBool True) fmempty, altered = False\<rparr>))
   \<and> fmlookup (settings (get_settings_from_env ''list'' ''ending_soonest'' Map.empty
          \<lparr>settings = fmupd ''prioritize_by_ending_soonest'' (JBool True) fmempty, altered = False\<rparr>))
        ''priority_algorithm'' = Some (JStr ''ending_soonest'')
   \<and> settings (get_settings_from_env ''list'' ''ending_soonest'' Map.empty
        (get_settings_from_env ''list'' ''ending_soonest'' Map.empty
          \<lparr>settings = fmupd ''prioritize_by_ending_soonest'' (JBool True) fmempty, altered = False\<rparr>))
      = settings (get_settings_from_env ''list'' ''ending_soonest'' Map.empty
          \<lparr>settings = fmupd ''prioritize_by_ending_soonest'' (JBool True) fmempty, altered = False\<rparr>)"
proof -
  let ?self = "\<lparr>settings = fmupd ''prioritize_by_ending_soonest'' (JBool True) fmempty, altered = False\<rparr>"
  have h: "Map.empty ''prioritize_by_ending_soonest'' \<noteq> Some ''1''
      \<and> ''priority_algorithm'' |\<notin>| fmdom (settings ?self)
      \<and> fmlookup (settings ?self) ''prioritize_by_ending_soonest'' = Some (JBool True)"
    by simp
  have t: "truthy (JBool True)" by simp
  note m = migration_guarded[of Map.empty ?self "JBool True" "''list''" "''ending_soonest''"]
  from m h t have 1: "''prioritize_by_ending_soonest'' |\<notin>| fmdom (settings (get_settings_from_env ''list'' ''ending_soonest'' Map.empty ?self))"
    and 2: "fmlookup (settings (get_settings_from_env ''list'' ''ending_soonest'' Map.empty ?self)) ''priority_algorithm'' = Some (JStr ''ending_soonest'')"
    by blast+
  from 2 have "''priority_algorithm'' |\<in>| fmdom (settings (get_settings_from_env ''list'' ''ending_soonest'' Map.empty ?self))"
    by (rule fmdomI)
  with m have 3: "settings (get_settings_from_env ''list'' ''ending_soonest'' Map.empty
        (get_settings_from_env ''list'' ''ending_soonest'' Map.empty ?self))
      = settings (get_settings_from_env ''list'' ''ending_soonest'' Map.empty ?self)"
    by blast
  from h t 1 2 3 show ?thesis by simp
qed

text \<open>
  The claim as it was stated fails on a settings map that holds both keys: with
  \<open>priority_algorithm = "list"\<close> and \<open>prioritize_by_ending_soonest = true\<close> the migration
  changes nothing. With the legacy key alone and false, the first application deletes it and
  sets no algorithm, and a second application then adds \<open>priority_algorithm = "list"\<close>.
\<close>

theorem migration_counterexample:
  "fmlookup (fmupd ''priority_algorithm'' (JStr ''list'')
              (fmupd ''prioritize_by_ending_soonest'' (JBool True) fmempty))
        ''prioritize_by_ending_soonest'' = Some (JBool True)
   \<and> fmlookup (settings (get_settings_from_env ''list'' ''ending_soonest'' Map.empty
          \<lparr>settings = fmupd ''priority_algorithm'' (JStr ''list'')
                        (fmupd ''prioritize_by_ending_soonest'' (JBool True) fmempty),
           altered = False\<rparr>))
        ''prioritize_by_ending_soonest'' = Some (JBool True)
   \<and> fmlookup (settings (get_settings_from_env ''list'' ''ending_soonest'' Map.empty
          \<lparr>settings = fmupd ''priority_algorithm'' (JStr ''list'')
                        (fmupd ''prioritize_by_ending_soonest'' (JBool True) fmempty),
           altered = False\<rparr>))
        ''priority_algorithm'' = Some (JStr ''list'')
   \<and> settings (get_settings_from_env ''list'' ''ending_soonest'' Map.empty
          \<lparr>settings = fmupd ''prioritize_by_ending_soonest'' (JBool False) fmempty, altered = False\<rparr>)
      = fmempty
   \<and> settings (get_settings_from_env ''list'' ''ending_soonest'' Map.empty
        (get_settings_from_env ''list'' ''ending_soonest'' Map.empty
          \<lparr>settings = fmupd ''prioritize_by_ending_soonest'' (JBool False) fmempty, altered = False\<rparr>))
      = fmupd ''priority_algorithm'' (JStr ''list'') fmempty"
  by (simp add: get_settings_from_env_def Let_def fmdrop_fmupd_same)

section \<open>The healthcheck file\<close>

text \<open>
  The claim is about which steps write \<open>healthcheck.timestamp\<close>. A step is modelled by the
  list of the calls it makes that other parts of the program can see, in the order of the
  source; the computations between them are left out, and what decides a branch is read
  from a record of what the step observes.
\<close>

datatype State =
  IDLE | INVENTORY_FETCH | GAMES_UPDATE | CHANNELS_CLEANUP | CHANNELS_FETCH | CHANNEL_SWITCH | EXIT

datatype effect =
    Write_healthcheck int
  | Change_state State
  | Status_update string
  | Print string
  | Stop_watching
  | Watch
  | Restart_watching
  | Websocket_start
  | Fetch_inventory
  | Save
  | Claim_drops
  | Remove_channels
  | Fetch_channels
  | Send_watch
  | Watch_sleep
  | Wait_drop_update
  | Gql_current_drop
  | Update_minutes
  | Bump_minutes
  | Drop_display
  | Stop_timer
  | Start_timer_task

text \<open>
  What one round of the loop of \<open>Twitch._run\<close> reads to choose its branch: whether
  \<open>self.wanted_games\<close> is empty, whether \<open>CHANNEL_SWITCH\<close> found a channel to switch to,
  whether a channel is being watched, and \<open>int(time())\<close>.
\<close>

record run_view =
  wanted_games_empty :: bool
  switch_target :: bool
  still_watching :: bool
  unix_time :: int

text \<open>
  One round of the \<open>while True\<close> of \<open>Twitch._run\<close>, by the state it finds. The two
  branches that end in \<open>IDLE\<close>:
  \<^verbatim>\<open>
  # CHANNELS_CLEANUP
  if self.wanted_games: self.change_state(State.CHANNELS_FETCH)
  else:
      self.print(_("status", "no_campaign"))
      with open('healthcheck.timestamp', 'w') as f: f.write(str(int(time())))
      self.change_state(State.IDLE)
  # CHANNEL_SWITCH
  if new_watching is not None: self.watch(new_watching); ...
  elif watching_channel is not None: self.gui.status.update(...); ...
  else:
      self.print(_("status", "no_channel"))
      with open('healthcheck.timestamp', 'w') as f: f.write(str(int(time())))
      self.change_state(State.IDLE)
  \<close>
\<close>

fun run_step :: "State \<Rightarrow> run_view \<Rightarrow> effect list" where
  "run_step IDLE v = [Status_update ''idle'', Stop_watching]"
| "run_step INVENTORY_FETCH v =
     [Websocket_start, Fetch_inventory, Save, Change_state GAMES_UPDATE]"
| "run_step GAMES_UPDATE v = [Claim_drops, Restart_watching, Change_state CHANNELS_CLEANUP]"
| "run_step CHANNELS_CLEANUP v =
     Status_update ''cleanup'' # Remove_channels #
       (if \<not> wanted_games_empty v then [Change_state CHANNELS_FETCH]
        else [Print ''no_campaign'', Write_healthcheck (unix_time v), Change_state IDLE])"
| "run_step CHANNELS_FETCH v =
     [Status_update ''gathering'', Fetch_channels, Change_state CHANNEL_SWITCH]"
| "run_step CHANNEL_SWITCH v =
     Status_update ''switching'' #
       (if switch_target v then [Watch]
        else if still_watching v then [Status_update ''watching'']
        else [Print ''no_channel'', Write_healthcheck (unix_time v), Change_state IDLE])"
| "run_step EXIT v = [Status_update ''exiting'']"

text \<open>
  The other places that call \<open>change_state\<close> (or hand \<open>state_change\<close> to a button), and the
  state each asks for.
\<close>

datatype requester =
    Run_start
  | Watch_loop_missing_drop
  | Maintenance_cleanup
  | Maintenance_reload
  | Drop_claim_handler
  | Drop_progress_handler
  | Channel_update_handler
  | Reload_button
  | Switch_button

fun requested_state :: "requester \<Rightarrow> State" where
  "requested_state Run_start = INVENTORY_FETCH"
| "requested_state Watch_loop_missing_drop = INVENTORY_FETCH"
| "requested_state Maintenance_cleanup = CHANNELS_CLEANUP"
| "requested_state Maintenance_reload = INVENTORY_FETCH"
| "requested_state Drop_claim_handler = INVENTORY_FETCH"
| "requested_state Drop_progress_handler = INVENTORY_FETCH"
| "requested_state Channel_update_handler = CHANNEL_SWITCH"
| "requested_state Reload_button = INVENTORY_FETCH"
| "requested_state Switch_button = CHANNEL_SWITCH"

text \<open>
  What one round of \<open>_watch_loop\<close> observes: the result of \<open>channel.send_watch()\<close>, the
  outcome of waiting ten seconds for the drop update (\<open>None\<close> for the timeout), what the
  \<open>CurrentDrop\<close> query reports, whether \<open>get_active_drop()\<close> finds a drop, and the seconds
  counter.
\<close>

datatype current_drop = No_session | Unknown_drop | Unearnable_drop | Earnable_drop

record watch_view =
  succeeded :: bool
  repeat_now :: bool
  drop_update :: "bool option"
  gql_drop :: current_drop
  active_drop :: bool
  current_seconds :: int

text \<open>
  One round of \<open>Twitch._watch_loop\<close> (the same text as \<open>StreamsManager._watch_loop\<close>):
  \<^verbatim>\<open>
  succeeded, repeat_now = await channel.send_watch()
  if not succeeded:
      if not repeat_now: await self._watch_sleep(interval)
      continue
  last_watch = time()
  self._drop_update = asyncio.Future(); use_active = False
  try: handled = await asyncio.wait_for(self._drop_update, timeout=10)
  except asyncio.TimeoutError: handled = False; use_active = True
  if not handled:
      if not use_active:
          context = await self.gql_request(GQL_OPERATIONS["CurrentDrop"])
          drop_data = context["data"]["currentUser"]["dropCurrentSession"]
          if drop_data is not None:
              drop = self._drops.get(drop_data["dropID"])
              if drop is None: use_active = True; self.change_state(State.INVENTORY_FETCH)
              elif not drop.can_earn(channel): use_active = True
              else: drop.update_minutes(...); drop.display()
          else: use_active = True
      if use_active:
          if (drop := self.get_active_drop()) is not None:
              if CurrentSeconds.get_current_seconds() < 1:
                  drop.bump_minutes(); drop.display()
  await self._watch_sleep(last_watch + interval - time())
  \<close>
\<close>

definition watch_iteration :: "watch_view \<Rightarrow> effect list" where
  "watch_iteration w =
     Send_watch #
       (if \<not> succeeded w then (if \<not> repeat_now w then [Watch_sleep] else [])
        else
          Wait_drop_update #
            (let handled = (case drop_update w of Some h \<Rightarrow> h | None \<Rightarrow> False);
                 use_active = (drop_update w = None)
             in (if \<not> handled then
                   (let gql = (if \<not> use_active then
                                 Gql_current_drop #
                                   (case gql_drop w of
                                      No_session \<Rightarrow> []
                                    | Unknown_drop \<Rightarrow> [Change_state INVENTORY_FETCH]
                                    | Unearnable_drop \<Rightarrow> []
                                    | Earnable_drop \<Rightarrow> [Update_minutes, Drop_display])
                               else []);
                        use_active = (use_active \<or> gql_drop w \<noteq> Earnable_drop)
                    in gql @
                       (if use_active \<and> active_drop w \<and> current_seconds w < 1
                        then [Bump_minutes, Drop_display] else []))
                 else [])
                @ [Watch_sleep]))"

text \<open>
  The progress display of the GUI (gui/components.py): \<open>display(drop, countdown)\<close> stops
  the timer, and for a drop shown with \<open>countdown\<close> calls \<open>start_timer\<close>, which prints the
  progress line and writes the healthcheck file:
  \<^verbatim>\<open>
  def start_timer(self):
      self._manager.print(_("gui", "progress", "progress_update").format(...))
      with open('healthcheck.timestamp', 'w') as f: f.write(str(int(time())))
      if self._timer_task is None: ...
  \<close>
\<close>

definition start_timer :: "int \<Rightarrow> effect list" where
  "start_timer now = [Print ''progress_update'', Write_healthcheck now, Start_timer_task]"

definition progress_display :: "bool \<Rightarrow> bool \<Rightarrow> int \<Rightarrow> effect list" where
  "progress_display has_drop countdown now =
     Stop_timer # (if \<not> has_drop then [] else if countdown then start_timer now else [])"

lemma run_step_write:
  "Write_healthcheck t \<in> set (run_step st v) \<longleftrightarrow>
     Change_state IDLE \<in> set (run_step st v) \<and> t = unix_time v"
  by (cases st) auto

lemma run_step_idle_tail:
  "Change_state IDLE \<in> set (run_step st v) \<Longrightarrow>
     \<exists>pre. run_step st v = pre @ [Write_healthcheck (unix_time v), Change_state IDLE]"
proof (cases st)
  case CHANNELS_CLEANUP
  assume "Change_state IDLE \<in> set (run_step st v)"
  with CHANNELS_CLEANUP have "wanted_games_empty v" by (auto split: if_splits)
  with CHANNELS_CLEANUP have "run_step st v =
      [Status_update ''cleanup'', Remove_channels, Print ''no_campaign'']
        @ [Write_healthcheck (unix_time v), Change_state IDLE]"
    by simp
  then show ?thesis by blast
next
  case CHANNEL_SWITCH
  assume "Change_state IDLE \<in> set (run_step st v)"
  with CHANNEL_SWITCH have "\<not> switch_target v" "\<not> still_watching v" by (auto split: if_splits)
  with CHANNEL_SWITCH have "run_step st v =
      [Status_update ''switching'', Print ''no_channel'']
        @ [Write_healthcheck (unix_time v), Change_state IDLE]"
    by simp
  then show ?thesis by blast
qed auto

lemma watch_iteration_no_write: "Write_healthcheck t \<notin> set (watch_iteration w)"
  by (auto simp: watch_iteration_def Let_def split: option.splits current_drop.splits if_splits)




end
